theory Spec2Isabelle
  imports Complex_Main
begin

section \<open>JavaScript values used by the components\<close>

text \<open>
  The two components (\<^verbatim>\<open>MainLayout.tsx\<close>, \<^verbatim>\<open>CanvasArea.tsx\<close>) keep their data in plain
  objects used as dictionaries (\<^verbatim>\<open>Record<string, T>\<close>). Such an object is modelled as an
  association list of its own properties, whose keys are distinct and stand in creation order:
  assigning a key is \<open>obj_set\<close>, which replaces the value of a key in place and appends a new
  key at the end; a copy by spread, \<^verbatim>\<open>{...o}\<close>, creates the keys in the order in which \<open>o\<close>
  enumerates them, which is \<open>ownEntries o\<close> below.

  Numbers are modelled as \<open>real\<close>: the coordinates are sums and halves of small integers,
  on which IEEE doubles are exact; the factor \<^verbatim>\<open>0.3\<close> of the control offset of an edge is
  taken as the fraction \<open>3 / 10\<close>.
\<close>

type_synonym 'a obj = "(string \<times> 'a) list"

fun obj_set :: "string \<Rightarrow> 'a \<Rightarrow> 'a obj \<Rightarrow> 'a obj" where
  "obj_set k v [] = [(k, v)]"
| "obj_set k v ((k', v') # kvs) = (if k' = k then (k, v) # kvs else (k', v') # obj_set k v kvs)"

text \<open>
  Every one of these objects is created by an object literal, so its prototype is
  \<^verbatim>\<open>Object.prototype\<close>, and a read \<^verbatim>\<open>o[k]\<close> of a key that is no own property of \<open>o\<close> falls
  through to it: for the twelve names below the read does not give \<^verbatim>\<open>undefined\<close> but a
  function, or, for \<^verbatim>\<open>__proto__\<close>, the object \<^verbatim>\<open>Object.prototype\<close> itself. All of these values
  are truthy; none is an array, a position or a branch.
\<close>

definition protoNames :: "string list" where
  "protoNames =
     [''constructor'', ''__proto__'', ''hasOwnProperty'', ''isPrototypeOf'',
      ''propertyIsEnumerable'', ''toLocaleString'', ''toString'', ''valueOf'',
      ''__defineGetter__'', ''__defineSetter__'', ''__lookupGetter__'', ''__lookupSetter__'']"

text \<open>
  Of the inherited values, the functions \<^verbatim>\<open>toLocaleString\<close>, \<^verbatim>\<open>toString\<close> and \<^verbatim>\<open>valueOf\<close>
  take no argument, so their \<^verbatim>\<open>length\<close> is \<open>0\<close>; the \<^verbatim>\<open>length\<close> of the other functions is
  \<open>1\<close> or \<open>2\<close>, and \<^verbatim>\<open>Object.prototype\<close> has none.
\<close>

definition lengthZeroNames :: "string list" where
  "lengthZeroNames = [''toLocaleString'', ''toString'', ''valueOf'']"

datatype 'a property = Own 'a | Inherited | Absent

text \<open>The read \<^verbatim>\<open>o[k]\<close>; \<open>Absent\<close> is \<^verbatim>\<open>undefined\<close>.\<close>

definition obj_get :: "'a obj \<Rightarrow> string \<Rightarrow> 'a property" where
  "obj_get kvs k =
     (case map_of kvs k of
        Some v \<Rightarrow> Own v
      | None \<Rightarrow> if k \<in> set protoNames then Inherited else Absent)"

text \<open>
  An assignment \<^verbatim>\<open>o[k] = v\<close> creates or replaces the own property \<open>k\<close> of \<open>o\<close>, with one
  exception: for the key \<^verbatim>\<open>__proto__\<close>, when it is no own property of \<open>o\<close>, the assignment
  replaces the prototype of \<open>o\<close> and creates no property.
\<close>

definition replacesPrototype :: "string \<Rightarrow> 'a obj \<Rightarrow> bool" where
  "replacesPrototype k kvs = (k = ''__proto__'' \<and> map_of kvs k = None)"

text \<open>
  What ends a call other than its return. \<open>TypeError\<close> is the exception that JavaScript throws
  when a property of \<^verbatim>\<open>undefined\<close> is read or a value that is no function is called.
  \<open>StackOverflow\<close> is the end of a recursion that does not end by itself (the \<^verbatim>\<open>RangeError\<close>
  for the exhausted call stack); the stack is taken to be as deep as any recursion that does end.
  \<open>Unmodelled\<close> marks the places where the source goes on with values that the model does not
  represent, and ends the run in the model: an object whose prototype was replaced, and an
  inherited value used as a position, which gives coordinates that are not numbers. No children
  index that the layout builds leads there: the layout call never ends with \<open>Unmodelled\<close>.
\<close>

datatype failure = TypeError | StackOverflow | Unmodelled

text \<open>
  \<^verbatim>\<open>Object.values\<close> and \<^verbatim>\<open>Object.entries\<close> enumerate own properties in the order of
  ECMAScript's OrdinaryOwnPropertyKeys: first the keys that are array indices (canonical
  decimal numerals below \<open>2^32 - 1\<close>) in ascending numeric order, then every other string
  key in creation order.
\<close>

definition isDigit :: "char \<Rightarrow> bool" where
  "isDigit c = (c \<in> set ''0123456789'')"

definition digitVal :: "char \<Rightarrow> nat" where
  "digitVal c = of_char c - 48"

definition decimalValue :: "string \<Rightarrow> nat" where
  "decimalValue s = foldl (\<lambda>n c. 10 * n + digitVal c) 0 s"

definition isArrayIndex :: "string \<Rightarrow> bool" where
  "isArrayIndex s =
     (s \<noteq> [] \<and> list_all isDigit s \<and> (hd s \<noteq> CHR ''0'' \<or> s = ''0'')
      \<and> decimalValue s < 2 ^ 32 - 1)"

definition ownEntries :: "'a obj \<Rightarrow> 'a obj" where
  "ownEntries kvs =
     sort_key (\<lambda>kv. decimalValue (fst kv)) (filter (\<lambda>kv. isArrayIndex (fst kv)) kvs)
     @ filter (\<lambda>kv. \<not> isArrayIndex (fst kv)) kvs"

text \<open>\<^verbatim>\<open>Date.now().toString()\<close>: the decimal numeral of a count of milliseconds.\<close>

fun decimal :: "nat \<Rightarrow> string" where
  "decimal n =
     (if n < 10 then [''0123456789'' ! n]
      else decimal (n div 10) @ [''0123456789'' ! (n mod 10)])"

declare decimal.simps [simp del]

section \<open>Data model\<close>

datatype Role = User | Assistant

record Message =
  m_id :: string
  content :: string
  role :: Role
  timestamp :: nat
  isInherited :: "bool option"

record Point =
  px :: real
  py :: real

record Branch =
  b_id :: string
  name :: string
  parentBranchId :: "string option"
  parentMessageId :: "string option"
  messages :: "Message list"
  summary :: string
  position :: Point
  level :: int

record Conversation =
  c_id :: string
  title :: string
  lastMessage :: string
  branches :: "Branch obj"
  activeBranchId :: string
  canvasCenter :: Point

text \<open>
  The component state of \<^verbatim>\<open>MainLayout\<close> that the handlers below read and write
  (\<^verbatim>\<open>selectedTool\<close> and \<^verbatim>\<open>selectedModel\<close> play no part in them).
\<close>

record AppState =
  conversations :: "Conversation obj"
  activeConversationId :: string
  highlightedMessageId :: "string option"

text \<open>
  An optional string is truthy in JavaScript when it is present and not empty; the source
  tests \<^verbatim>\<open>branch.parentBranchId\<close> this way.
\<close>

definition truthy :: "string option \<Rightarrow> bool" where
  "truthy s = (case s of None \<Rightarrow> False | Some t \<Rightarrow> t \<noteq> [])"

section \<open>Layout: \<^verbatim>\<open>calculateOptimalBranchPositions\<close>\<close>

definition HORIZONTAL_SPACING :: real where "HORIZONTAL_SPACING = 450"
definition VERTICAL_SPACING :: real where "VERTICAL_SPACING = 150"
definition BLOCK_HEIGHT :: real where "BLOCK_HEIGHT = 380"
definition BLOCK_WIDTH :: real where "BLOCK_WIDTH = 320"
definition MIN_SPACING :: real where "MIN_SPACING = 50"

text \<open>
  The body of the first \<^verbatim>\<open>branches.forEach\<close>: a branch with a truthy parent id is pushed
  onto its parent's list of children, which is created when \<^verbatim>\<open>childrenMap[p]\<close> is falsy. For a
  parent id that \<^verbatim>\<open>childrenMap\<close> inherits, \<^verbatim>\<open>!childrenMap[p]\<close> is false, no list is created, and
  the inherited value has no method \<^verbatim>\<open>push\<close>: the call throws. (\<^verbatim>\<open>parentMap\<close> is written there
  too and never read; the value assigned is a string, for which an assignment to \<^verbatim>\<open>__proto__\<close>
  does nothing.)
\<close>

definition addChild :: "Branch \<Rightarrow> string list obj \<Rightarrow> failure + string list obj" where
  "addChild branch childrenMap =
     (case parentBranchId branch of
        None \<Rightarrow> Inr childrenMap
      | Some p \<Rightarrow>
          if p = [] then Inr childrenMap
          else
            case obj_get childrenMap p of
              Absent \<Rightarrow> Inr (obj_set p [b_id branch] childrenMap)
            | Own children \<Rightarrow> Inr (obj_set p (children @ [b_id branch]) childrenMap)
            | Inherited \<Rightarrow> Inl TypeError)"

text \<open>The loop \<^verbatim>\<open>branches.forEach\<close> itself; an exception ends it.\<close>

fun forEachBranch :: "Branch list \<Rightarrow> string list obj \<Rightarrow> failure + string list obj" where
  "forEachBranch [] childrenMap = Inr childrenMap"
| "forEachBranch (branch # rest) childrenMap =
     (case addChild branch childrenMap of
        Inl e \<Rightarrow> Inl e
      | Inr childrenMap' \<Rightarrow> forEachBranch rest childrenMap')"

text \<open>
  \<^verbatim>\<open>positionBranch\<close> and the \<^verbatim>\<open>children.forEach\<close> inside it call each other. The
  source passes a \<^verbatim>\<open>depth\<close> that it never reads; here the first argument bounds the depth of
  the recursion instead, and a recursion that goes deeper than the bound ends with
  \<open>StackOverflow\<close>.

  \<^verbatim>\<open>children\<close> is \<^verbatim>\<open>childrenMap[branchId] || []\<close>. When \<^verbatim>\<open>branchId\<close> is an inherited name,
  \<^verbatim>\<open>children\<close> is the inherited value: the call returns at \<^verbatim>\<open>children.length === 0\<close> for the
  three functions of length \<open>0\<close>; for the other names it passes that test and the test of
  \<^verbatim>\<open>parentPos\<close> (\<^verbatim>\<open>positions[branchId]\<close> is an own or an inherited value, truthy in both cases)
  and throws at \<^verbatim>\<open>children.forEach\<close>, which is no function. \<^verbatim>\<open>existingRightBranches\<close> and
  \<^verbatim>\<open>existingLeftBranches\<close> are counted once, before the loop over the children, as in the source.

  For a child with the id \<^verbatim>\<open>__proto__\<close> the assignment \<^verbatim>\<open>positions[childId] = ...\<close> replaces the
  prototype of \<^verbatim>\<open>positions\<close> and creates no property; the call \<^verbatim>\<open>positionBranch(childId)\<close>
  that follows throws, since \<^verbatim>\<open>childrenMap\<close> inherits a value under this id. Should it return
  (for a \<^verbatim>\<open>childrenMap\<close> with an own property \<^verbatim>\<open>__proto__\<close>, which the first loop cannot
  build), the run is not followed further.
\<close>

fun positionBranch ::
  "nat \<Rightarrow> string list obj \<Rightarrow> string \<Rightarrow> Point obj \<Rightarrow> failure + Point obj"
and forEachChild ::
  "nat \<Rightarrow> string list obj \<Rightarrow> Point \<Rightarrow> real \<Rightarrow> nat \<Rightarrow> nat \<Rightarrow> string list \<Rightarrow> nat \<Rightarrow> Point obj
     \<Rightarrow> failure + Point obj"
where
  "positionBranch 0 childrenMap branchId positions = Inl StackOverflow"
| "positionBranch (Suc depthLeft) childrenMap branchId positions =
     (case obj_get childrenMap branchId of
        Absent \<Rightarrow> Inr positions
      | Inherited \<Rightarrow>
          if branchId \<in> set lengthZeroNames then Inr positions else Inl TypeError
      | Own children \<Rightarrow>
          if children = [] then Inr positions
          else
            case obj_get positions branchId of
              Absent \<Rightarrow> Inr positions
            | Inherited \<Rightarrow> Inl Unmodelled
            | Own parentPos \<Rightarrow>
                (let totalChildren = length children;
                     totalHeight = max (real totalChildren * VERTICAL_SPACING) BLOCK_HEIGHT;
                     startY = py parentPos - (totalHeight / 2) + (VERTICAL_SPACING / 2);
                     existingRightBranches =
                       length (filter (\<lambda>pos. px pos > px parentPos)
                                 (map snd (ownEntries positions)));
                     existingLeftBranches =
                       length (filter (\<lambda>pos. px pos < px parentPos)
                                 (map snd (ownEntries positions)))
                 in forEachChild depthLeft childrenMap parentPos startY
                      existingRightBranches existingLeftBranches children 0 positions))"
| "forEachChild depthLeft childrenMap parentPos startY existingRightBranches existingLeftBranches
       [] index positions = Inr positions"
| "forEachChild depthLeft childrenMap parentPos startY existingRightBranches existingLeftBranches
       (childId # rest) index positions =
     (let goRight =
            (if index mod 2 = 0 then existingRightBranches \<le> existingLeftBranches
             else existingRightBranches > existingLeftBranches);
          xDirection = (if goRight then 1 else - 1);
          xOffset = HORIZONTAL_SPACING * xDirection;
          yPosition = startY + (real index * VERTICAL_SPACING)
      in
        if replacesPrototype childId positions then
          (case positionBranch depthLeft childrenMap childId positions of
             Inl e \<Rightarrow> Inl e
           | Inr positions' \<Rightarrow> Inl Unmodelled)
        else
          (case positionBranch depthLeft childrenMap childId
                  (obj_set childId \<lparr>px = px parentPos + xOffset, py = yPosition\<rparr> positions) of
             Inl e \<Rightarrow> Inl e
           | Inr positions' \<Rightarrow>
               forEachChild depthLeft childrenMap parentPos startY
                 existingRightBranches existingLeftBranches rest (index + 1) positions'))"

subsection \<open>\<^verbatim>\<open>resolveOverlaps\<close>\<close>

definition overlapping :: "Point \<Rightarrow> Point \<Rightarrow> bool" where
  "overlapping pos1 pos2 =
     (\<bar>px pos1 - px pos2\<bar> < BLOCK_WIDTH + MIN_SPACING
      \<and> \<bar>py pos1 - py pos2\<bar> < BLOCK_HEIGHT + MIN_SPACING)"

text \<open>
  The body of the inner loop, for the entries at indices \<open>i < j\<close>. The key \<^verbatim>\<open>id2\<close> is an
  own property of \<^verbatim>\<open>resolved\<close>, the copy of \<^verbatim>\<open>positions\<close>, so the assignment replaces its value.
\<close>

definition resolvePair :: "string \<times> Point \<Rightarrow> string \<times> Point \<Rightarrow> Point obj \<Rightarrow> Point obj" where
  "resolvePair entry1 entry2 resolved =
     (let pos1 = snd entry1; id2 = fst entry2; pos2 = snd entry2 in
      if overlapping pos1 pos2 then
        (let moveDistance = BLOCK_HEIGHT + MIN_SPACING in
         if py pos2 \<ge> py pos1 then obj_set id2 (pos2\<lparr>py := py pos1 + moveDistance\<rparr>) resolved
         else obj_set id2 (pos2\<lparr>py := py pos1 - moveDistance\<rparr>) resolved)
      else resolved)"

text \<open>
  The two nested \<^verbatim>\<open>for\<close> loops: every entry of \<^verbatim>\<open>positionArray\<close>, in order, is paired
  with every later entry, in order.
\<close>

fun resolveLoop :: "(string \<times> Point) list \<Rightarrow> Point obj \<Rightarrow> Point obj" where
  "resolveLoop [] resolved = resolved"
| "resolveLoop (entry1 # later) resolved =
     resolveLoop later (fold (resolvePair entry1) later resolved)"

definition resolveOverlaps :: "Point obj \<Rightarrow> Point obj" where
  "resolveOverlaps positions =
     (let positionArray = ownEntries positions;
          resolved = ownEntries positions
      in resolveLoop positionArray resolved)"

subsection \<open>The layout call\<close>

definition isRoot :: "Branch \<Rightarrow> bool" where
  "isRoot b = (\<not> truthy (parentBranchId b))"

text \<open>
  The children index is built first, then the root is looked for. The depth bound handed to
  \<open>positionBranch\<close> is one more than the number of branches. A chain of calls longer than that
  visits some branch id twice, and from there the source recurses without end. The assignment
  \<^verbatim>\<open>positions[rootBranch.id] = ...\<close> is followed like the one of a child in
  \<^verbatim>\<open>children.forEach\<close>.
\<close>

definition calculateOptimalBranchPositions :: "Conversation \<Rightarrow> failure + Point obj" where
  "calculateOptimalBranchPositions conversation =
     (let branchList = map snd (ownEntries (branches conversation)) in
      case forEachBranch branchList [] of
        Inl e \<Rightarrow> Inl e
      | Inr childrenMap \<Rightarrow>
          (case find isRoot branchList of
             None \<Rightarrow> Inr []
           | Some rootBranch \<Rightarrow>
               if replacesPrototype (b_id rootBranch) ([] :: Point obj) then
                 (case positionBranch (Suc (length branchList)) childrenMap
                         (b_id rootBranch) [] of
                    Inl e \<Rightarrow> Inl e
                  | Inr positions \<Rightarrow> Inl Unmodelled)
               else
                 (case positionBranch (Suc (length branchList)) childrenMap
                         (b_id rootBranch)
                         (obj_set (b_id rootBranch) (canvasCenter conversation) []) of
                    Inl e \<Rightarrow> Inl e
                  | Inr positions \<Rightarrow> Inr (resolveOverlaps positions))))"

section \<open>Branch creation and switching\<close>

text \<open>
  \<^verbatim>\<open>handleCreateBranch\<close>; the value of \<^verbatim>\<open>Date.now()\<close> is a parameter. \<^verbatim>\<open>activeConversation\<close>
  and \<^verbatim>\<open>activeBranch\<close> are computed when the component is rendered, by the reads
  \<^verbatim>\<open>conversations[activeConversationId]\<close> and
  \<^verbatim>\<open>activeConversation?.branches[activeConversation.activeBranchId]\<close>. An inherited value in
  the place of the conversation has no \<^verbatim>\<open>branches\<close>, and the second read throws; an inherited
  value in the place of the branch has no \<^verbatim>\<open>messages\<close>, and the guard of the handler throws at
  \<^verbatim>\<open>activeBranch.messages.length\<close>. An exception of the layout call inside leaves the handler
  before it commits anything. The state that the updater passed to \<^verbatim>\<open>setConversations\<close>
  receives as \<^verbatim>\<open>prev\<close> is taken to be the \<^verbatim>\<open>conversations\<close> of the render, here and in the
  other handlers.

  In the loop that builds \<^verbatim>\<open>updatedBranches\<close>, \<^verbatim>\<open>newPositions[id] || branch.position\<close> is an
  own position, or the old position when \<^verbatim>\<open>newPositions\<close> has none for \<^verbatim>\<open>id\<close>; where this read
  gives an inherited value, or the key assigned is \<^verbatim>\<open>__proto__\<close>, the run is not followed.
\<close>

definition handleCreateBranch :: "nat \<Rightarrow> AppState \<Rightarrow> failure + AppState" where
  "handleCreateBranch now st =
     (case obj_get (conversations st) (activeConversationId st) of
        Absent \<Rightarrow> Inr st
      | Inherited \<Rightarrow> Inl TypeError
      | Own activeConversation \<Rightarrow>
          (case obj_get (branches activeConversation) (activeBranchId activeConversation) of
             Absent \<Rightarrow> Inr st
           | Inherited \<Rightarrow> Inl TypeError
           | Own activeBranch \<Rightarrow>
               if messages activeBranch = [] then Inr st
               else
                 (let newBranchId = ''branch-'' @ decimal now;
                      lastMsg = last (messages activeBranch);
                      newLevel = level activeBranch + 1;
                      inheritedMessage =
                        lastMsg\<lparr>m_id := ''inherited-'' @ m_id lastMsg, isInherited := Some True\<rparr>;
                      newBranch =
                        \<lparr>b_id = newBranchId, name = newBranchId,
                         parentBranchId = Some (b_id activeBranch),
                         parentMessageId = Some (m_id lastMsg),
                         messages = [inheritedMessage],
                         summary = ''Branch from: '' @ summary activeBranch,
                         position = \<lparr>px = 0, py = 0\<rparr>,
                         level = newLevel\<rparr>;
                      updatedConversation =
                        activeConversation
                          \<lparr>activeBranchId := newBranchId,
                           branches :=
                             obj_set newBranchId newBranch
                               (ownEntries (branches activeConversation))\<rparr>
                  in
                    case calculateOptimalBranchPositions updatedConversation of
                      Inl e \<Rightarrow> Inl e
                    | Inr newPositions \<Rightarrow>
                        if list_ex (\<lambda>(k, branch). k = ''__proto__''
                                       \<or> obj_get newPositions k = Inherited)
                             (ownEntries (branches updatedConversation))
                        then Inl Unmodelled
                        else
                          (let updatedBranches =
                                 map (\<lambda>(k, branch).
                                        (k, branch\<lparr>position :=
                                              (case obj_get newPositions k of
                                                 Own p \<Rightarrow> p
                                               | _ \<Rightarrow> position branch)\<rparr>))
                                   (ownEntries (branches updatedConversation))
                           in Inr (st\<lparr>conversations :=
                                        obj_set (activeConversationId st)
                                          (updatedConversation\<lparr>branches := updatedBranches\<rparr>)
                                          (ownEntries (conversations st)),
                                      highlightedMessageId := None\<rparr>)))))"

text \<open>
  \<^verbatim>\<open>handleSwitchBranch\<close>. An inherited value in the place of the conversation passes the guard
  and has no \<^verbatim>\<open>branches\<close> to read the target from; an inherited value in the place of the
  target branch has no \<^verbatim>\<open>messages\<close> to search for the highlighted message. In both cases the
  handler throws (after it has queued its update of the conversations, which is not followed).
\<close>

definition handleSwitchBranch :: "string \<Rightarrow> AppState \<Rightarrow> failure + AppState" where
  "handleSwitchBranch branchId st =
     (case obj_get (conversations st) (activeConversationId st) of
        Absent \<Rightarrow> Inr st
      | Inherited \<Rightarrow> Inl TypeError
      | Own activeConversation \<Rightarrow>
          (let switched =
                 st\<lparr>conversations :=
                      obj_set (activeConversationId st)
                        (activeConversation\<lparr>activeBranchId := branchId\<rparr>)
                        (ownEntries (conversations st))\<rparr>
           in
             case obj_get (branches activeConversation) branchId of
               Absent \<Rightarrow> Inr switched
             | Inherited \<Rightarrow>
                 if truthy (highlightedMessageId st) then Inl TypeError else Inr switched
             | Own targetBranch \<Rightarrow>
                 (case highlightedMessageId st of
                    None \<Rightarrow> Inr switched
                  | Some h \<Rightarrow>
                      if h \<noteq> [] \<and> \<not> list_ex (\<lambda>m. m_id m = h) (messages targetBranch)
                      then Inr (switched\<lparr>highlightedMessageId := None\<rparr>)
                      else Inr switched)))"

text \<open>
  \<^verbatim>\<open>handleSendMessage\<close>, with the two values of \<^verbatim>\<open>Date.now()\<close> as parameters (the time
  stamps of the messages are taken at the first): the message of the user and the answer are
  appended to the active branch, neither of them marked as inherited.
  The branch is written back under its own id. An inherited value in the place of
  the branch has no \<^verbatim>\<open>messages\<close> to spread.
\<close>

definition handleSendMessage :: "nat \<Rightarrow> nat \<Rightarrow> string \<Rightarrow> AppState \<Rightarrow> failure + AppState" where
  "handleSendMessage now later input st =
     (case obj_get (conversations st) (activeConversationId st) of
        Absent \<Rightarrow> Inr st
      | Inherited \<Rightarrow> Inl TypeError
      | Own activeConversation \<Rightarrow>
          (case obj_get (branches activeConversation) (activeBranchId activeConversation) of
             Absent \<Rightarrow> Inr st
           | Inherited \<Rightarrow> Inl TypeError
           | Own activeBranch \<Rightarrow>
               (let userMessage =
                      \<lparr>m_id = decimal now, content = input, role = User, timestamp = now,
                       isInherited = None\<rparr>;
                    assistantMessage =
                      \<lparr>m_id = decimal (later + 1),
                       content = ''This is a response to: '' @ [CHR 0x22] @ input @ [CHR 0x22],
                       role = Assistant, timestamp = now, isInherited = None\<rparr>
                in Inr (st\<lparr>conversations :=
                             obj_set (activeConversationId st)
                               (activeConversation
                                  \<lparr>lastMessage := input,
                                   branches :=
                                     obj_set (b_id activeBranch)
                                       (activeBranch
                                          \<lparr>messages :=
                                             messages activeBranch
                                               @ [userMessage, assistantMessage],
                                           summary :=
                                             (if messages activeBranch = []
                                              then ''Discussion about: '' @ take 50 input @ ''...''
                                              else summary activeBranch)\<rparr>)
                                       (ownEntries (branches activeConversation))\<rparr>)
                               (ownEntries (conversations st)),
                           highlightedMessageId := None\<rparr>))))"

text \<open>
  \<^verbatim>\<open>handleNewConversation\<close>, with the value of \<^verbatim>\<open>Date.now()\<close> as a parameter, and the
  callback \<^verbatim>\<open>onConversationSelect\<close> of the sidebar.
\<close>

definition handleNewConversation :: "nat \<Rightarrow> AppState \<Rightarrow> AppState" where
  "handleNewConversation now st =
     (let newId = decimal now;
          newConversation =
            \<lparr>c_id = newId, title = ''New Conversation'',
             lastMessage = ''Start a new conversation'',
             branches =
               [(''main'',
                 \<lparr>b_id = ''main'', name = ''main'', parentBranchId = None,
                  parentMessageId = None, messages = [], summary = ''New conversation'',
                  position = \<lparr>px = 800, py = 400\<rparr>, level = 0\<rparr>)],
             activeBranchId = ''main'', canvasCenter = \<lparr>px = 800, py = 400\<rparr>\<rparr>
      in st\<lparr>conversations := obj_set newId newConversation (ownEntries (conversations st)),
            activeConversationId := newId,
            highlightedMessageId := None\<rparr>)"

definition onConversationSelect :: "string \<Rightarrow> AppState \<Rightarrow> AppState" where
  "onConversationSelect i st = st\<lparr>activeConversationId := i, highlightedMessageId := None\<rparr>"

text \<open>
  \<^verbatim>\<open>handleNavigateToMessage\<close>, and the callback of the timer it starts, which removes the
  highlight three seconds later. The handler does not read the branches; with an inherited value
  in the place of the conversation it would commit a copy of that value, which is not followed.
\<close>

definition handleNavigateToMessage :: "string \<Rightarrow> string \<Rightarrow> AppState \<Rightarrow> failure + AppState" where
  "handleNavigateToMessage branchId messageId st =
     (case obj_get (conversations st) (activeConversationId st) of
        Absent \<Rightarrow> Inr st
      | Inherited \<Rightarrow> Inl Unmodelled
      | Own activeConversation \<Rightarrow>
          Inr (st\<lparr>conversations :=
                    obj_set (activeConversationId st)
                      (activeConversation\<lparr>activeBranchId := branchId\<rparr>)
                      (ownEntries (conversations st)),
                  highlightedMessageId := Some messageId\<rparr>))"

definition clearHighlight :: "AppState \<Rightarrow> AppState" where
  "clearHighlight st = st\<lparr>highlightedMessageId := None\<rparr>"

text \<open>
  The \<^verbatim>\<open>activeBranch\<close> that \<^verbatim>\<open>MainLayout\<close> computes when it is rendered and hands to
  \<^verbatim>\<open>ChatBar\<close>; \<open>None\<close> is \<^verbatim>\<open>undefined\<close>, and stands also for a render that throws, which
  shows no button at all.
\<close>

definition activeBranchOf :: "AppState \<Rightarrow> Branch option" where
  "activeBranchOf st =
     (case obj_get (conversations st) (activeConversationId st) of
        Own activeConversation \<Rightarrow>
          (case obj_get (branches activeConversation) (activeBranchId activeConversation) of
             Own activeBranch \<Rightarrow> Some activeBranch
           | _ \<Rightarrow> None)
      | _ \<Rightarrow> None)"

text \<open>
  \<^verbatim>\<open>ChatBar\<close>: the button \<^verbatim>\<open>New Branch\<close>, the only caller of \<^verbatim>\<open>handleCreateBranch\<close>, is
  disabled unless \<^verbatim>\<open>canCreateBranch\<close>: there is an active branch, and one of its messages is not
  inherited (\<^verbatim>\<open>!m.isInherited\<close>).
\<close>

definition canCreateBranch :: "Branch option \<Rightarrow> bool" where
  "canCreateBranch activeBranch =
     (case activeBranch of
        None \<Rightarrow> False
      | Some b \<Rightarrow> list_ex (\<lambda>m. isInherited m \<noteq> Some True) (messages b))"

section \<open>Canvas: recentring and edge geometry\<close>




record ConnectionPoints =
  startX :: real
  startY :: real
  endX :: real
  endY :: real

definition calculateConnectionPoints :: "Branch \<Rightarrow> Branch \<Rightarrow> ConnectionPoints" where
  "calculateConnectionPoints parentBranch childBranch =
     (let BLOCK_HALF = 160;
          isChildOnRight = px (position childBranch) > px (position parentBranch);
          isChildOnLeft = px (position childBranch) < px (position parentBranch)
      in
        if isChildOnRight then
          \<lparr>startX = px (position parentBranch) + BLOCK_HALF, startY = py (position parentBranch),
           endX = px (position childBranch) - BLOCK_HALF, endY = py (position childBranch)\<rparr>
        else if isChildOnLeft then
          \<lparr>startX = px (position parentBranch) - BLOCK_HALF, startY = py (position parentBranch),
           endX = px (position childBranch) + BLOCK_HALF, endY = py (position childBranch)\<rparr>
        else
          \<lparr>startX = px (position parentBranch), startY = py (position parentBranch),
           endX = px (position childBranch), endY = py (position childBranch)\<rparr>)"

text \<open>
  The control points computed where the connection lines are rendered, from the result of
  \<^verbatim>\<open>calculateConnectionPoints\<close>.
\<close>

definition controlOffset :: "ConnectionPoints \<Rightarrow> real" where
  "controlOffset c = (let deltaX = \<bar>endX c - startX c\<bar> in min (max (deltaX * (3 / 10)) 80) 150)"

definition controlX1 :: "ConnectionPoints \<Rightarrow> real" where
  "controlX1 c =
     (let isChildOnRight = endX c > startX c
      in startX c + (if isChildOnRight then controlOffset c else - controlOffset c))"

definition controlX2 :: "ConnectionPoints \<Rightarrow> real" where
  "controlX2 c =
     (let isChildOnRight = endX c > startX c
      in endX c + (if isChildOnRight then - controlOffset c else controlOffset c))"

section \<open>Notions used in the statements\<close>

text \<open>The branches of a conversation in the order \<^verbatim>\<open>Object.values\<close> gives them.\<close>

definition branchesOf :: "Conversation \<Rightarrow> Branch list" where
  "branchesOf conversation = map snd (ownEntries (branches conversation))"

text \<open>\<open>childOf bs c p\<close>: some branch of \<open>bs\<close> has the id \<open>c\<close> and the truthy parent link \<open>p\<close>.\<close>

definition childOf :: "Branch list \<Rightarrow> string \<Rightarrow> string \<Rightarrow> bool" where
  "childOf bs c p = (\<exists>b\<in>set bs. b_id b = c \<and> parentBranchId b = Some p \<and> p \<noteq> [])"

text \<open>
  A chain of ids that follows the parent links upwards, from the branch being positioned to a
  branch without a parent: the stack of calls of \<^verbatim>\<open>positionBranch\<close>.
\<close>

fun upPath :: "Branch list \<Rightarrow> string list \<Rightarrow> bool" where
  "upPath bs [] = True"
| "upPath bs [r] = (\<forall>b\<in>set bs. b_id b = r \<longrightarrow> isRoot b)"
| "upPath bs (c # p # rest) = (childOf bs c p \<and> upPath bs (p # rest))"

text \<open>A branch with the given id, parent link and position and no messages.\<close>

definition branchAt :: "string \<Rightarrow> string option \<Rightarrow> Point \<Rightarrow> Branch" where
  "branchAt i p pos =
     \<lparr>b_id = i, name = i, parentBranchId = p, parentMessageId = None, messages = [],
      summary = [], position = pos, level = 0\<rparr>"

text \<open>The child reflected to the other side of its parent, at the same height.\<close>

definition mirrorAbout :: "Branch \<Rightarrow> Branch \<Rightarrow> Branch" where
  "mirrorAbout parentBranch childBranch =
     childBranch\<lparr>position :=
       \<lparr>px = 2 * px (position parentBranch) - px (position childBranch),
        py = py (position childBranch)\<rparr>\<rparr>"



text \<open>
  The branches that hang from \<open>r\<close>: its children by the parent links, their children, and so on.
\<close>

inductive_set attached :: "Branch list \<Rightarrow> string \<Rightarrow> string set" for bs :: "Branch list" and r :: string where
  child: "childOf bs c r \<Longrightarrow> c \<in> attached bs r"
| step: "p \<in> attached bs r \<Longrightarrow> childOf bs c p \<Longrightarrow> c \<in> attached bs r"

text \<open>A conversation that stores the given branches, in this order, under their own ids.\<close>

definition conversationOf :: "Branch list \<Rightarrow> Point \<Rightarrow> Conversation" where
  "conversationOf bs center =
     \<lparr>c_id = ''1'', title = [], lastMessage = [], branches = map (\<lambda>b. (b_id b, b)) bs,
      activeBranchId = ''main'', canvasCenter = center\<rparr>"

text \<open>
  Where the overlap pass leaves a block, given the positions before the pass of the blocks
  enumerated before it, in order: where it was when it overlaps none of them, and otherwise
  \<open>BLOCK_HEIGHT + MIN_SPACING\<close> below or above the last of them that it overlaps.
\<close>

definition settled :: "Point list \<Rightarrow> Point \<Rightarrow> Point" where
  "settled earlier pos =
     (let hits = filter (\<lambda>q. overlapping q pos) earlier in
      if hits = [] then pos
      else pos\<lparr>py := (if py pos \<ge> py (last hits) then py (last hits) + (BLOCK_HEIGHT + MIN_SPACING)
                       else py (last hits) - (BLOCK_HEIGHT + MIN_SPACING))\<rparr>)"

text \<open>A mapping of branches that stores every branch under its own id.\<close>

definition wellKeyed :: "Branch obj \<Rightarrow> bool" where
  "wellKeyed kvs = (distinct (map fst kvs) \<and> list_all (\<lambda>kv. b_id (snd kv) = fst kv) kvs)"

text \<open>The copy of a message that seeds a new branch.\<close>

definition inheritedCopy :: "Message \<Rightarrow> Message" where
  "inheritedCopy m = m\<lparr>m_id := ''inherited-'' @ m_id m, isInherited := Some True\<rparr>"

text \<open>The last message of a list that is not marked as inherited, if there is one.\<close>

definition mostRecentNonInherited :: "Message list \<Rightarrow> Message option" where
  "mostRecentNonInherited ms =
     (let own = filter (\<lambda>m. isInherited m \<noteq> Some True) ms
      in if own = [] then None else Some (last own))"

text \<open>The active conversation of a state, and a branch of it.\<close>

definition activeConversationOf :: "AppState \<Rightarrow> Conversation option" where
  "activeConversationOf st = map_of (conversations st) (activeConversationId st)"

definition branchIn :: "AppState \<Rightarrow> string \<Rightarrow> Branch option" where
  "branchIn st k =
     (case activeConversationOf st of None \<Rightarrow> None | Some c \<Rightarrow> map_of (branches c) k)"

text \<open>
  The branch that \<^verbatim>\<open>handleCreateBranch\<close> creates at the time \<open>now\<close> from the active branch, and
  the conversation with this branch added and made the active one, before the layout.
\<close>

definition createdBranch :: "nat \<Rightarrow> Branch \<Rightarrow> Branch" where
  "createdBranch now activeBranch =
     \<lparr>b_id = ''branch-'' @ decimal now, name = ''branch-'' @ decimal now,
      parentBranchId = Some (b_id activeBranch),
      parentMessageId = Some (m_id (last (messages activeBranch))),
      messages = [inheritedCopy (last (messages activeBranch))],
      summary = ''Branch from: '' @ summary activeBranch,
      position = \<lparr>px = 0, py = 0\<rparr>, level = level activeBranch + 1\<rparr>"

definition withCreatedBranch :: "nat \<Rightarrow> Branch \<Rightarrow> Conversation \<Rightarrow> Conversation" where
  "withCreatedBranch now activeBranch conversation =
     conversation
       \<lparr>activeBranchId := ''branch-'' @ decimal now,
        branches := obj_set (''branch-'' @ decimal now) (createdBranch now activeBranch)
                      (ownEntries (branches conversation))\<rparr>"

text \<open>
  The initial state of \<^verbatim>\<open>MainLayout\<close>, with the conversation \<^verbatim>\<open>Project Ideas\<close> selected
  (timestamps set to 0).
\<close>

definition ideasMain :: Branch where
  "ideasMain =
     \<lparr>b_id = ''main'', name = ''main'', parentBranchId = None, parentMessageId = None,
      messages =
        [\<lparr>m_id = ''1'', content = ''Let's brainstorm some project ideas'', role = User,
          timestamp = 0, isInherited = None\<rparr>,
         \<lparr>m_id = ''2'', content = ''Here are some exciting project ideas we could explore...'',
          role = Assistant, timestamp = 0, isInherited = None\<rparr>],
      summary = ''Brainstorming project concepts'',
      position = \<lparr>px = 800, py = 400\<rparr>, level = 0\<rparr>"

definition ideasConversation :: Conversation where
  "ideasConversation =
     \<lparr>c_id = ''2'', title = ''Project Ideas'', lastMessage = ''Let's brainstorm some concepts'',
      branches = [(''main'', ideasMain)],
      activeBranchId = ''main'', canvasCenter = \<lparr>px = 800, py = 400\<rparr>\<rparr>"

definition welcomeConversation :: Conversation where
  "welcomeConversation =
     \<lparr>c_id = ''1'', title = ''New Conversation'', lastMessage = ''Welcome to your workspace'',
      branches =
        [(''main'',
          \<lparr>b_id = ''main'', name = ''main'', parentBranchId = None, parentMessageId = None,
           messages = [], summary = ''New conversation'',
           position = \<lparr>px = 800, py = 400\<rparr>, level = 0\<rparr>)],
      activeBranchId = ''main'', canvasCenter = \<lparr>px = 800, py = 400\<rparr>\<rparr>"

definition initialState :: AppState where
  "initialState =
     \<lparr>conversations = [(''1'', welcomeConversation), (''2'', ideasConversation)],
      activeConversationId = ''1'', highlightedMessageId = None\<rparr>"

definition projectIdeas :: AppState where
  "projectIdeas =
     \<lparr>conversations = [(''1'', welcomeConversation), (''2'', ideasConversation)],
      activeConversationId = ''2'', highlightedMessageId = None\<rparr>"

text \<open>
  The state that \<^verbatim>\<open>Project Ideas\<close> is in after a branch was created at the time 1 and the
  message \<^verbatim>\<open>more\<close> was sent in it at the time 2: the new branch holds its inherited seed, the
  message and the answer to it.
\<close>

definition seededBranch :: Branch where
  "seededBranch =
     \<lparr>b_id = ''branch-1'', name = ''branch-1'', parentBranchId = Some ''main'',
      parentMessageId = Some ''2'',
      messages =
        [\<lparr>m_id = ''inherited-2'',
          content = ''Here are some exciting project ideas we could explore...'',
          role = Assistant, timestamp = 0, isInherited = Some True\<rparr>,
         \<lparr>m_id = ''2'', content = ''more'', role = User, timestamp = 2, isInherited = None\<rparr>,
         \<lparr>m_id = ''3'', content = ''This is a response to: '' @ [CHR 0x22] @ ''more'' @ [CHR 0x22],
          role = Assistant, timestamp = 2, isInherited = None\<rparr>],
      summary = ''Branch from: Brainstorming project concepts'',
      position = \<lparr>px = 1250, py = 285\<rparr>, level = 1\<rparr>"

definition ideasContinued :: AppState where
  "ideasContinued =
     \<lparr>conversations =
        [(''1'', welcomeConversation),
         (''2'', ideasConversation
                  \<lparr>lastMessage := ''more'',
                   branches := [(''main'', ideasMain), (''branch-1'', seededBranch)],
                   activeBranchId := ''branch-1''\<rparr>)],
      activeConversationId = ''2'', highlightedMessageId = None\<rparr>"

text \<open>
  A state whose active conversation has the root as its only branch, at \<open>(800, 400)\<close>, with the
  messages \<open>m # ms\<close>.
\<close>

definition rootOnly :: "string \<Rightarrow> Message \<Rightarrow> Message list \<Rightarrow> AppState" where
  "rootOnly cid m ms =
     \<lparr>conversations =
        [(cid,
          \<lparr>c_id = cid, title = ''New Conversation'', lastMessage = content m,
           branches =
             [(''main'',
               \<lparr>b_id = ''main'', name = ''main'', parentBranchId = None, parentMessageId = None,
                messages = m # ms, summary = ''New conversation'',
                position = \<lparr>px = 800, py = 400\<rparr>, level = 0\<rparr>)],
           activeBranchId = ''main'', canvasCenter = \<lparr>px = 800, py = 400\<rparr>\<rparr>)],
      activeConversationId = cid, highlightedMessageId = None\<rparr>"

text \<open>The conversation without the branch of a given id.\<close>

definition withoutBranch :: "string \<Rightarrow> Conversation \<Rightarrow> Conversation" where
  "withoutBranch k conversation =
     conversation\<lparr>branches := filter (\<lambda>kv. b_id (snd kv) \<noteq> k) (branches conversation)\<rparr>"

text \<open>The position that the loop over the children assigns to the child with index \<open>i\<close>.\<close>

definition childPoint :: "Point \<Rightarrow> real \<Rightarrow> nat \<Rightarrow> nat \<Rightarrow> nat \<Rightarrow> Point" where
  "childPoint parentPos firstY rightCount leftCount i =
     \<lparr>px = px parentPos + HORIZONTAL_SPACING *
             (if (if i mod 2 = 0 then rightCount \<le> leftCount else rightCount > leftCount)
              then 1 else - 1),
      py = firstY + (real i * VERTICAL_SPACING)\<rparr>"

text \<open>The list that a children index holds for an id; empty when it holds none.\<close>

definition childrenOf :: "string list obj \<Rightarrow> string \<Rightarrow> string list" where
  "childrenOf childrenMap branchId =
     (case map_of childrenMap branchId of None \<Rightarrow> [] | Some cs \<Rightarrow> cs)"

text \<open>
  No branch id, and no parent id, is the name of a property that every object inherits; a
  branch whose truthy parent id is such a name.
\<close>

definition plainIds :: "Branch list \<Rightarrow> bool" where
  "plainIds bs = list_all (\<lambda>b. b_id b \<notin> set protoNames) bs"

definition plainParents :: "Branch list \<Rightarrow> bool" where
  "plainParents bs =
     list_all (\<lambda>b. case parentBranchId b of None \<Rightarrow> True | Some p \<Rightarrow> p \<notin> set protoNames) bs"

definition inheritedParent :: "Branch \<Rightarrow> bool" where
  "inheritedParent b =
     (case parentBranchId b of None \<Rightarrow> False | Some p \<Rightarrow> p \<noteq> [] \<and> p \<in> set protoNames)"

text \<open>
  The messages of a branch are its seed, if it has one, followed by messages that are not
  inherited: only the first message may be marked as inherited.
\<close>

definition seedFirst :: "Message list \<Rightarrow> bool" where
  "seedFirst ms = list_all (\<lambda>m. isInherited m \<noteq> Some True) (tl ms)"

definition seedFirstState :: "AppState \<Rightarrow> bool" where
  "seedFirstState st =
     list_all (\<lambda>kc. list_all (\<lambda>kb. seedFirst (messages (snd kb))) (branches (snd kc)))
       (conversations st)"

text \<open>
  The states of the component: what the handlers make of the initial state, whatever the
  arguments and times at which they are called. \<^verbatim>\<open>handleCreateBranch\<close> is called by the button
  \<^verbatim>\<open>New Branch\<close> only, which is disabled unless \<^verbatim>\<open>canCreateBranch\<close>.
\<close>

inductive reachable :: "AppState \<Rightarrow> bool" where
  initial: "reachable initialState"
| newConversation: "reachable st \<Longrightarrow> reachable (handleNewConversation now st)"
| select: "reachable st \<Longrightarrow> reachable (onConversationSelect i st)"
| send: "reachable st \<Longrightarrow> handleSendMessage now later input st = Inr st' \<Longrightarrow> reachable st'"
| create: "reachable st \<Longrightarrow> canCreateBranch (activeBranchOf st) \<Longrightarrow>
           handleCreateBranch now st = Inr st' \<Longrightarrow> reachable st'"
| switch: "reachable st \<Longrightarrow> handleSwitchBranch branchId st = Inr st' \<Longrightarrow> reachable st'"
| navigate: "reachable st \<Longrightarrow> handleNavigateToMessage branchId messageId st = Inr st' \<Longrightarrow>
             reachable st'"
| timer: "reachable st \<Longrightarrow> reachable (clearHighlight st)"

text \<open>
  Every conversation of the state stores its branches under their own ids, none of which, and
  no parent id, is a name that an object inherits; the conversations have distinct keys.
\<close>

definition keyedConversation :: "Conversation \<Rightarrow> bool" where
  "keyedConversation c =
     (wellKeyed (branches c) \<and> plainIds (branchesOf c) \<and> plainParents (branchesOf c))"

definition keyedState :: "AppState \<Rightarrow> bool" where
  "keyedState st =
     (distinct (map fst (conversations st))
      \<and> list_all (\<lambda>kc. keyedConversation (snd kc)) (conversations st))"

section \<open>Objects, enumeration order and the children index\<close>

lemma map_of_obj_set: "map_of (obj_set k v kvs) = (map_of kvs)(k \<mapsto> v)"
  by (induction kvs) auto

lemma keys_obj_set: "fst ` set (obj_set k v kvs) = insert k (fst ` set kvs)"
proof -
  have "fst ` set (obj_set k v kvs) = dom (map_of (obj_set k v kvs))"
    by (simp add: dom_map_of_conv_image_fst)
  also have "\<dots> = insert k (dom (map_of kvs))"
    by (simp add: map_of_obj_set)
  finally show ?thesis
    by (simp add: dom_map_of_conv_image_fst)
qed

lemma distinct_obj_set: "distinct (map fst kvs) \<Longrightarrow> distinct (map fst (obj_set k v kvs))"
  by (induction kvs) (auto simp: keys_obj_set)

lemma map_fst_obj_set: "k \<in> fst ` set kvs \<Longrightarrow> map fst (obj_set k v kvs) = map fst kvs"
  by (induction kvs) force+

lemma set_ownEntries: "set (ownEntries kvs) = set kvs"
  by (auto simp: ownEntries_def)

lemma length_ownEntries: "length (ownEntries kvs) = length kvs"
  by (simp add: ownEntries_def sum_length_filter_compl)

lemma distinct_ownEntries:
  assumes "distinct (map fst kvs)"
  shows "distinct (map fst (ownEntries kvs))"
proof -
  from assms have d: "distinct kvs" and i: "inj_on fst (set kvs)"
    by (simp_all add: distinct_map)
  have "distinct (ownEntries kvs)"
    using d by (auto simp: ownEntries_def)
  then show ?thesis
    using i by (simp add: distinct_map set_ownEntries)
qed

lemma map_of_ownEntries: "distinct (map fst kvs) \<Longrightarrow> map_of (ownEntries kvs) = map_of kvs"
  by (simp add: map_of_inject_set distinct_ownEntries set_ownEntries)

lemma ownEntries_plain: "\<forall>k\<in>fst ` set kvs. \<not> isArrayIndex k \<Longrightarrow> ownEntries kvs = kvs"
proof -
  assume a: "\<forall>k\<in>fst ` set kvs. \<not> isArrayIndex k"
  then have "filter (\<lambda>kv. isArrayIndex (fst kv)) kvs = []"
    by (auto simp: filter_empty_conv)
  moreover from a have "filter (\<lambda>kv. \<not> isArrayIndex (fst kv)) kvs = kvs"
    by (auto simp: filter_id_conv)
  ultimately show ?thesis by (simp add: ownEntries_def)
qed

lemma obj_get_Own: "obj_get kvs k = Own v \<longleftrightarrow> map_of kvs k = Some v"
  by (auto simp: obj_get_def split: option.splits)

lemma obj_get_Inherited: "obj_get kvs k = Inherited \<longleftrightarrow> map_of kvs k = None \<and> k \<in> set protoNames"
  by (auto simp: obj_get_def split: option.splits)

lemma obj_get_Absent: "obj_get kvs k = Absent \<longleftrightarrow> map_of kvs k = None \<and> k \<notin> set protoNames"
  by (auto simp: obj_get_def split: option.splits)

lemma obj_get_member: "obj_get kvs k = Own v \<Longrightarrow> (k, v) \<in> set kvs"
  by (simp add: obj_get_Own map_of_SomeD)

lemma obj_get_plain:
  "k \<notin> set protoNames \<Longrightarrow>
   obj_get kvs k = (case map_of kvs k of Some v \<Rightarrow> Own v | None \<Rightarrow> Absent)"
  by (simp add: obj_get_def)

lemma proto_in_protoNames: "''__proto__'' \<in> set protoNames"
  by (simp add: protoNames_def)

lemma replacesPrototype_plain: "k \<notin> set protoNames \<Longrightarrow> \<not> replacesPrototype k kvs"
  using proto_in_protoNames by (auto simp: replacesPrototype_def)

lemma childrenOf_obj_set:
  "childrenOf (obj_set p v cm) q = (if q = p then v else childrenOf cm q)"
  by (simp add: childrenOf_def map_of_obj_set)

lemma childrenOf_empty: "childrenOf [] p = []"
  by (simp add: childrenOf_def)

text \<open>
  The first loop throws exactly when some branch has a truthy parent id that the index
  inherits; otherwise it returns the index that holds, for every parent id, its children in the
  order of the enumeration.
\<close>

lemma addChild_cases:
  "addChild b cm =
     (if inheritedParent b \<and> map_of cm (the (parentBranchId b)) = None then Inl TypeError
      else Inr (case parentBranchId b of
                  None \<Rightarrow> cm
                | Some p \<Rightarrow> if p = [] then cm else obj_set p (childrenOf cm p @ [b_id b]) cm))"
  by (auto simp: addChild_def obj_get_def childrenOf_def inheritedParent_def split: option.splits)

lemma forEachBranch_map_of:
  "forEachBranch bs cm0 = Inr cm \<Longrightarrow>
   map_of cm p =
     (if filter (\<lambda>b. parentBranchId b = Some p \<and> p \<noteq> []) bs = [] then map_of cm0 p
      else Some (childrenOf cm0 p
                 @ map b_id (filter (\<lambda>b. parentBranchId b = Some p \<and> p \<noteq> []) bs)))"
proof (induction bs arbitrary: cm0)
  case Nil
  then show ?case by simp
next
  case (Cons b bs)
  from Cons.prems obtain cm1 where
    a: "addChild b cm0 = Inr cm1" and r: "forEachBranch bs cm1 = Inr cm"
    by (auto split: sum.splits)
  from a have cm1: "cm1 = (case parentBranchId b of
                  None \<Rightarrow> cm0
                | Some q \<Rightarrow> if q = [] then cm0 else obj_set q (childrenOf cm0 q @ [b_id b]) cm0)"
    by (simp add: addChild_cases split: if_splits)
  show ?case
    unfolding Cons.IH[OF r] cm1
    by (auto simp: map_of_obj_set childrenOf_obj_set childrenOf_def split: option.splits)
qed

lemma forEachBranch_childrenOf:
  "forEachBranch bs cm0 = Inr cm \<Longrightarrow>
   childrenOf cm p
     = childrenOf cm0 p @ map b_id (filter (\<lambda>b. parentBranchId b = Some p \<and> p \<noteq> []) bs)"
  by (simp add: childrenOf_def forEachBranch_map_of split: option.splits)

lemma forEachBranch_returns:
  "\<not> list_ex inheritedParent bs \<Longrightarrow> \<exists>cm. forEachBranch bs cm0 = Inr cm"
  by (induction bs arbitrary: cm0) (auto simp: addChild_cases)

lemma addChild_keys:
  assumes "addChild b cm0 = Inr cm1" "\<forall>k\<in>fst ` set cm0. k \<notin> set protoNames"
  shows "\<forall>k\<in>fst ` set cm1. k \<notin> set protoNames"
proof (cases "truthy (parentBranchId b)")
  case False
  with assms show ?thesis
    by (auto simp: addChild_def truthy_def split: option.splits if_splits)
next
  case True
  then obtain p where p: "parentBranchId b = Some p" "p \<noteq> []"
    by (auto simp: truthy_def split: option.splits)
  have "p \<notin> set protoNames"
  proof
    assume i: "p \<in> set protoNames"
    with assms(2) have "map_of cm0 p = None"
      by (metis domIff dom_map_of_conv_image_fst)
    with i p assms(1) show False
      by (simp add: addChild_cases inheritedParent_def)
  qed
  moreover from assms(1) p have "cm1 = obj_set p (childrenOf cm0 p @ [b_id b]) cm0"
    by (simp add: addChild_cases split: if_splits)
  ultimately show ?thesis
    using assms(2) by (auto simp: keys_obj_set)
qed

lemma forEachBranch_throws:
  "list_ex inheritedParent bs \<Longrightarrow> \<forall>k\<in>fst ` set cm0. k \<notin> set protoNames \<Longrightarrow>
   forEachBranch bs cm0 = Inl TypeError"
proof (induction bs arbitrary: cm0)
  case Nil
  then show ?case by simp
next
  case (Cons b bs)
  show ?case
  proof (cases "addChild b cm0")
    case (Inl e)
    then have "e = TypeError"
      by (simp add: addChild_cases split: if_splits)
    with Inl show ?thesis by simp
  next
    case (Inr cm1)
    then have "\<not> (inheritedParent b \<and> map_of cm0 (the (parentBranchId b)) = None)"
      by (simp add: addChild_cases split: if_splits)
    moreover have "map_of cm0 (the (parentBranchId b)) = None" if "inheritedParent b"
    proof -
      from that have "the (parentBranchId b) \<in> set protoNames"
        by (auto simp: inheritedParent_def split: option.splits)
      with Cons.prems(2) show ?thesis
        by (metis domIff dom_map_of_conv_image_fst)
    qed
    ultimately have "\<not> inheritedParent b" by blast
    with Cons.prems(1) have "list_ex inheritedParent bs" by simp
    from Cons.IH[OF this addChild_keys[OF Inr Cons.prems(2)]] Inr show ?thesis
      by simp
  qed
qed

lemma plainParents_no_inherited: "plainParents bs \<Longrightarrow> \<not> list_ex inheritedParent bs"
  by (auto simp: plainParents_def inheritedParent_def list_all_iff list_ex_iff split: option.splits)

lemma childrenOf_childrenMap:
  "forEachBranch bs [] = Inr cm \<Longrightarrow> c \<in> set (childrenOf cm p) \<longleftrightarrow> childOf bs c p"
  by (auto simp: forEachBranch_childrenOf childrenOf_empty childOf_def)

lemma childrenMap_nonempty:
  "forEachBranch bs [] = Inr cm \<Longrightarrow> map_of cm p \<noteq> Some []"
  by (simp add: forEachBranch_map_of childrenOf_empty)

lemma childrenMap_get:
  "forEachBranch bs [] = Inr cm \<Longrightarrow>
   obj_get cm p = (if childrenOf cm p \<noteq> [] then Own (childrenOf cm p)
                   else if p \<in> set protoNames then Inherited else Absent)"
  using childrenMap_nonempty[of bs cm p]
  by (auto simp: obj_get_def childrenOf_def split: option.splits)

lemma ownEntries_single: "ownEntries [kv] = [kv]"
  by (simp add: ownEntries_def)

section \<open>The layout call returns\<close>

text \<open>
  When the branch ids are distinct, a chain of nested calls of \<^verbatim>\<open>positionBranch\<close> never meets an id
  twice: every id on it but the first is a child of the one before, the first has no parent, and
  a branch has one parent. So the chain is no longer than the number of branches, and the depth
  bound is never reached. When, besides, no id is an inherited name, no read falls through to
  \<^verbatim>\<open>Object.prototype\<close>, and every call returns.
\<close>

lemma forEachChild_total:
  assumes "\<And>c pos. c \<in> set cs \<Longrightarrow> \<exists>res. positionBranch d cm c pos = Inr res"
    and "\<forall>c\<in>set cs. c \<notin> set protoNames"
  shows "\<exists>res. forEachChild d cm pp sy r l cs idx pos = Inr res"
  using assms
proof (induction cs arbitrary: idx pos)
  case Nil
  then show ?case by simp
next
  case (Cons c cs)
  define v where "v = \<lparr>px = px pp + HORIZONTAL_SPACING * (if (if idx mod 2 = 0 then r \<le> l else r > l) then 1 else - 1),
        py = sy + (real idx * VERTICAL_SPACING)\<rparr>"
  from Cons.prems(2) have a: "\<not> replacesPrototype c pos"
    by (simp add: replacesPrototype_plain)
  obtain pos' where p: "positionBranch d cm c (obj_set c v pos) = Inr pos'"
    using Cons.prems(1)[of c] by fastforce
  have "\<exists>res. forEachChild d cm pp sy r l cs (idx + 1) pos' = Inr res"
    using Cons.IH Cons.prems by simp
  then show ?case using p a by (simp add: Let_def v_def)
qed

lemma childOf_unique:
  assumes "distinct (map b_id bs)" "childOf bs c p" "childOf bs c q"
  shows "p = q"
proof -
  from assms(2) obtain b where b: "b \<in> set bs" "b_id b = c" "parentBranchId b = Some p"
    by (auto simp: childOf_def)
  from assms(3) obtain b' where b': "b' \<in> set bs" "b_id b' = c" "parentBranchId b' = Some q"
    by (auto simp: childOf_def)
  from assms(1) have "inj_on b_id (set bs)"
    by (simp add: distinct_map)
  with b b' have "b = b'"
    by (auto dest: inj_onD)
  with b b' show ?thesis by simp
qed

lemma childOf_not_root:
  assumes "distinct (map b_id bs)" "childOf bs c p" "b \<in> set bs" "b_id b = c"
  shows "\<not> isRoot b"
proof -
  from assms(2) obtain b' where b': "b' \<in> set bs" "b_id b' = c" "parentBranchId b' = Some p" "p \<noteq> []"
    by (auto simp: childOf_def)
  from assms(1) have "inj_on b_id (set bs)"
    by (simp add: distinct_map)
  with b' assms(3,4) have "b = b'"
    by (auto dest: inj_onD)
  with b' show ?thesis by (simp add: isRoot_def truthy_def)
qed

lemma childOf_id: "childOf bs c p \<Longrightarrow> c \<in> b_id ` set bs"
  by (auto simp: childOf_def)

lemma upPath_split:
  assumes d: "distinct (map b_id bs)"
  shows "upPath bs xs \<Longrightarrow> c \<in> set xs \<Longrightarrow> childOf bs c q \<Longrightarrow> \<exists>ys zs. xs = ys @ c # q # zs"
proof (induction xs)
  case Nil
  then show ?case by simp
next
  case (Cons a xs)
  show ?case
  proof (cases xs)
    case Nil
    with Cons.prems have "c = a" and r: "\<forall>b\<in>set bs. b_id b = a \<longrightarrow> isRoot b"
      by simp_all
    from Cons.prems(3) obtain b where "b \<in> set bs" "b_id b = c" "\<not> isRoot b"
      by (auto simp: childOf_def isRoot_def truthy_def)
    with r \<open>c = a\<close> show ?thesis by blast
  next
    case (Cons p rest)
    with Cons.prems have ap: "childOf bs a p" and up: "upPath bs xs"
      by simp_all
    show ?thesis
    proof (cases "c = a")
      case True
      with ap Cons.prems(3) have "q = p"
        using childOf_unique[OF d] by blast
      with True Cons have "a # xs = [] @ c # q # rest" by simp
      then show ?thesis by blast
    next
      case False
      with Cons.prems have "c \<in> set xs" by simp
      from Cons.IH[OF up this Cons.prems(3)] obtain ys zs where "xs = ys @ c # q # zs"
        by blast
      then have "a # xs = (a # ys) @ c # q # zs" by simp
      then show ?thesis by blast
    qed
  qed
qed

lemma child_not_on_path:
  assumes d: "distinct (map b_id bs)"
    and up: "upPath bs (p # anc)"
    and dp: "distinct (p # anc)"
    and ch: "childOf bs c p"
  shows "c \<notin> set (p # anc)"
proof
  assume "c \<in> set (p # anc)"
  from upPath_split[OF d up this ch] obtain ys zs where e: "p # anc = ys @ c # p # zs"
    by blast
  have "p \<in> set anc"
  proof (cases ys)
    case Nil
    with e show ?thesis by simp
  next
    case (Cons y ys')
    with e show ?thesis by simp
  qed
  with dp show False by simp
qed

lemma path_length:
  assumes "distinct xs" "set xs \<subseteq> b_id ` set bs"
  shows "length xs \<le> length bs"
proof -
  have "length xs = card (set xs)"
    using assms(1) by (simp add: distinct_card)
  also have "\<dots> \<le> card (b_id ` set bs)"
    using assms(2) by (simp add: card_mono)
  also have "\<dots> \<le> card (set bs)"
    by (simp add: card_image_le)
  also have "\<dots> \<le> length bs"
    by (simp add: card_length)
  finally show ?thesis .
qed

lemma positionBranch_total:
  assumes d: "distinct (map b_id bs)"
    and pl: "plainIds bs"
    and cm: "\<And>p c. c \<in> set (childrenOf cm p) \<Longrightarrow> childOf bs c p"
  shows "upPath bs (bid # anc) \<Longrightarrow> distinct (bid # anc) \<Longrightarrow> set (bid # anc) \<subseteq> b_id ` set bs
     \<Longrightarrow> length bs < length (bid # anc) + depth
     \<Longrightarrow> \<exists>res. positionBranch depth cm bid pos = Inr res"
proof (induction depth arbitrary: bid anc pos)
  case 0
  from path_length[OF "0.prems"(2,3)] "0.prems"(4) show ?case by simp
next
  case (Suc depth)
  have plain: "k \<notin> set protoNames" if "k \<in> b_id ` set bs" for k
    using pl that by (auto simp: plainIds_def list_all_iff)
  have sub: "\<exists>res. positionBranch depth cm c pos' = Inr res"
    if c: "c \<in> set (childrenOf cm bid)" for c pos'
  proof -
    have ch: "childOf bs c bid" using cm[OF c] .
    have "c \<notin> set (bid # anc)"
      using child_not_on_path[OF d Suc.prems(1,2) ch] .
    then have "distinct (c # bid # anc)"
      using Suc.prems(2) by simp
    moreover have "upPath bs (c # bid # anc)"
      using ch Suc.prems(1) by simp
    moreover have "set (c # bid # anc) \<subseteq> b_id ` set bs"
      using Suc.prems(3) childOf_id[OF ch] by simp
    moreover have "length bs < length (c # bid # anc) + depth"
      using Suc.prems(4) by simp
    ultimately show ?thesis
      using Suc.IH by blast
  qed
  have pc: "\<forall>c\<in>set (childrenOf cm bid). c \<notin> set protoNames"
    using cm childOf_id plain by blast
  have pb: "bid \<notin> set protoNames"
    using Suc.prems(3) plain by simp
  show ?case
  proof (cases "map_of cm bid")
    case None
    then show ?thesis by (simp add: obj_get_plain[OF pb])
  next
    case (Some cs)
    then have cs: "childrenOf cm bid = cs" by (simp add: childrenOf_def)
    show ?thesis
      using forEachChild_total[of cs depth cm, OF sub pc[unfolded cs]] Some cs
      by (auto simp: obj_get_plain[OF pb] Let_def split: option.splits)
  qed
qed

lemma find_isRoot:
  "find isRoot bs = Some r \<Longrightarrow> r \<in> set bs \<and> isRoot r"
  by (auto simp: find_Some_iff)

lemma upPath_root:
  assumes "distinct (map b_id bs)" "r \<in> set bs" "isRoot r"
  shows "upPath bs [b_id r]"
proof -
  from assms(1) have "inj_on b_id (set bs)" by (simp add: distinct_map)
  with assms(2,3) show ?thesis
    by (auto dest: inj_onD)
qed

lemma positionBranch_root_total:
  assumes d: "distinct (map b_id bs)" and pl: "plainIds bs"
    and cm: "forEachBranch bs [] = Inr cm"
    and r: "r \<in> set bs" "isRoot r"
  shows "\<exists>res. positionBranch (Suc (length bs)) cm (b_id r) pos = Inr res"
proof -
  have "upPath bs (b_id r # [])" using upPath_root[OF d r] .
  moreover have "distinct (b_id r # [])" by simp
  moreover have "set (b_id r # []) \<subseteq> b_id ` set bs" using r by simp
  moreover have "length bs < length (b_id r # []) + Suc (length bs)" by simp
  ultimately show ?thesis
    using positionBranch_total[OF d pl, of cm] childrenOf_childrenMap[OF cm]
    by blast
qed

lemma calculate_throws:
  "forEachBranch (branchesOf conversation) [] = Inl e \<Longrightarrow>
   calculateOptimalBranchPositions conversation = Inl e"
  by (simp add: calculateOptimalBranchPositions_def branchesOf_def Let_def)

lemma calculate_unfold:
  "forEachBranch (branchesOf conversation) [] = Inr cm \<Longrightarrow>
   calculateOptimalBranchPositions conversation =
     (case find isRoot (branchesOf conversation) of
        None \<Rightarrow> Inr []
      | Some rootBranch \<Rightarrow>
          if b_id rootBranch = ''__proto__'' then
            (case positionBranch (Suc (length (branchesOf conversation))) cm
                    (b_id rootBranch) [] of
               Inl e \<Rightarrow> Inl e
             | Inr positions \<Rightarrow> Inl Unmodelled)
          else
            map_sum id resolveOverlaps
              (positionBranch (Suc (length (branchesOf conversation))) cm (b_id rootBranch)
                 [(b_id rootBranch, canvasCenter conversation)]))"
  by (simp add: calculateOptimalBranchPositions_def branchesOf_def Let_def replacesPrototype_def
      split: option.splits sum.splits)

lemma plain_root:
  assumes "plainIds bs" "r \<in> set bs"
  shows "b_id r \<noteq> ''__proto__''"
  using assms proto_in_protoNames by (auto simp: plainIds_def list_all_iff)

lemma calculate_total:
  assumes d: "distinct (map b_id (branchesOf conversation))"
    and pl: "plainIds (branchesOf conversation)" "plainParents (branchesOf conversation)"
  shows "\<exists>layout. calculateOptimalBranchPositions conversation = Inr layout"
proof -
  from forEachBranch_returns[OF plainParents_no_inherited[OF pl(2)]] obtain cm where
    cm: "forEachBranch (branchesOf conversation) [] = Inr cm"
    by blast
  show ?thesis
  proof (cases "find isRoot (branchesOf conversation)")
    case None
    then show ?thesis by (simp add: calculate_unfold[OF cm])
  next
    case (Some r)
    then have r: "r \<in> set (branchesOf conversation)" "isRoot r"
      using find_isRoot by blast+
    from positionBranch_root_total[OF d pl(1) cm r] obtain res where
      "positionBranch (Suc (length (branchesOf conversation))) cm (b_id r)
         [(b_id r, canvasCenter conversation)] = Inr res"
      by blast
    then show ?thesis
      using Some plain_root[OF pl(1) r(1)] by (simp add: calculate_unfold[OF cm])
  qed
qed

section \<open>What \<^verbatim>\<open>positionBranch\<close> writes\<close>

text \<open>
  A property of the positions that every assignment \<^verbatim>\<open>positions[childId] = ...\<close> keeps is kept
  by the whole recursion.
\<close>

lemma forEachChild_Cons_Inr:
  "forEachChild d cm pp sy r l (c # cs) idx pos = Inr pos' \<Longrightarrow>
   \<exists>v p2. positionBranch d cm c (obj_set c v pos) = Inr p2
          \<and> forEachChild d cm pp sy r l cs (idx + 1) p2 = Inr pos'"
  by (auto simp: Let_def split: sum.splits if_splits)

lemma positionBranch_Suc_Inr:
  "positionBranch (Suc d) cm bid pos = Inr pos' \<Longrightarrow>
   (pos' = pos \<and> (childrenOf cm bid = [] \<or> map_of pos bid = None))
   \<or> (childrenOf cm bid \<noteq> [] \<and>
       (\<exists>pp sy r l. map_of pos bid = Some pp
          \<and> forEachChild d cm pp sy r l (childrenOf cm bid) 0 pos = Inr pos'))"
  by (auto simp: Let_def obj_get_def childrenOf_def split: option.splits if_splits)

lemma forEachChild_invariant:
  assumes run: "forEachChild d cm pp sy r l cs idx pos = Inr pos'"
    and inv: "Q pos"
    and step: "\<And>c v p1 p2. c \<in> set cs \<Longrightarrow> Q p1 \<Longrightarrow>
                 positionBranch d cm c (obj_set c v p1) = Inr p2 \<Longrightarrow> Q p2"
  shows "Q pos'"
  using run inv step
proof (induction cs arbitrary: idx pos)
  case Nil
  then show ?case by simp
next
  case (Cons c cs)
  from forEachChild_Cons_Inr[OF Cons.prems(1)] obtain v p2 where
    a: "positionBranch d cm c (obj_set c v pos) = Inr p2" and
    b: "forEachChild d cm pp sy r l cs (idx + 1) p2 = Inr pos'"
    by blast
  have "Q p2"
    using Cons.prems(3)[OF _ Cons.prems(2) a] by simp
  show ?case
  proof (rule Cons.IH[OF b \<open>Q p2\<close>])
    fix c' v' p1' p2'
    assume "c' \<in> set cs" "Q p1'" "positionBranch d cm c' (obj_set c' v' p1') = Inr p2'"
    then show "Q p2'"
      using Cons.prems(3)[of c' p1' v' p2'] by simp
  qed
qed

lemma positionBranch_invariant:
  assumes wr: "\<And>c v p pos. c \<in> set (childrenOf cm p) \<Longrightarrow> Q pos \<Longrightarrow> Q (obj_set c v pos)"
  shows "positionBranch d cm bid pos = Inr pos' \<Longrightarrow> Q pos \<Longrightarrow> Q pos'"
proof (induction d arbitrary: bid pos pos')
  case 0
  then show ?case by simp
next
  case (Suc d)
  from positionBranch_Suc_Inr[OF Suc.prems(1)] consider
      (same) "pos' = pos"
    | (loop) pp sy r l where
        "forEachChild d cm pp sy r l (childrenOf cm bid) 0 pos = Inr pos'"
    by blast
  then show ?case
  proof cases
    case same
    with Suc.prems show ?thesis by simp
  next
    case loop
    show ?thesis
    proof (rule forEachChild_invariant[where Q = Q, OF loop Suc.prems(2)])
      fix c v p1 p2
      assume "c \<in> set (childrenOf cm bid)" "Q p1"
        "positionBranch d cm c (obj_set c v p1) = Inr p2"
      then show "Q p2"
        using Suc.IH wr by blast
    qed
  qed
qed

lemma positionBranch_other_keys:
  assumes "positionBranch d cm bid pos = Inr pos'"
    and "\<And>p. k \<notin> set (childrenOf cm p)"
  shows "map_of pos' k = map_of pos k"
proof -
  have "map_of pos' k = map_of pos k"
  proof (rule positionBranch_invariant[where Q = "\<lambda>q. map_of q k = map_of pos k", OF _ assms(1)])
    fix c v p q
    assume "c \<in> set (childrenOf cm p)" "map_of q k = map_of pos k"
    with assms(2) show "map_of (obj_set c v q) k = map_of pos k"
      by (auto simp: map_of_obj_set)
  qed simp
  then show ?thesis .
qed

lemma positionBranch_head:
  assumes "positionBranch d cm bid ((k, v) # ps) = Inr pos'"
    and "\<And>p. k \<notin> set (childrenOf cm p)"
  shows "\<exists>ps'. pos' = (k, v) # ps'"
proof (rule positionBranch_invariant[where Q = "\<lambda>q. \<exists>ps'. q = (k, v) # ps'", OF _ assms(1)])
  fix c w p q
  assume "c \<in> set (childrenOf cm p)" "\<exists>ps'. q = (k, v) # ps'"
  with assms(2) show "\<exists>ps'. obj_set c w q = (k, v) # ps'"
    by auto
qed simp

lemma positionBranch_distinct:
  assumes "positionBranch d cm bid pos = Inr pos'" and "distinct (map fst pos)"
  shows "distinct (map fst pos')"
  by (rule positionBranch_invariant[where Q = "\<lambda>q. distinct (map fst q)", OF _ assms])
     (simp add: distinct_obj_set)

lemma positionBranch_keys_subset:
  assumes "positionBranch d cm bid pos = Inr pos'"
    and "fst ` set pos \<subseteq> A" and "\<And>p. set (childrenOf cm p) \<subseteq> A"
  shows "fst ` set pos' \<subseteq> A"
proof (rule positionBranch_invariant[where Q = "\<lambda>q. fst ` set q \<subseteq> A", OF _ assms(1,2)])
  fix c v p q
  assume "c \<in> set (childrenOf cm p)" "fst ` set q \<subseteq> A"
  with assms(3) show "fst ` set (obj_set c v q) \<subseteq> A"
    by (auto simp: keys_obj_set)
qed

text \<open>
  A call for a branch that has a position returns with positions for exactly the branches
  that hang from it, besides the ones that were there.
\<close>

lemma attached_child_subset:
  assumes "childOf bs c p"
  shows "insert c (attached bs c) \<subseteq> attached bs p"
proof -
  have "g \<in> attached bs p" if "g \<in> attached bs c" for g
    using that
  proof (induction rule: attached.induct)
    case (child g)
    then show ?case using assms attached.child attached.step by blast
  next
    case (step q g)
    then show ?case using attached.step by blast
  qed
  then show ?thesis
    using assms attached.child by blast
qed

lemma attached_first:
  "g \<in> attached bs p \<Longrightarrow> \<exists>c. childOf bs c p \<and> (g = c \<or> g \<in> attached bs c)"
proof (induction rule: attached.induct)
  case (child c)
  then show ?case by blast
next
  case (step q g)
  then obtain c where c: "childOf bs c p" "q = c \<or> q \<in> attached bs c"
    by blast
  from c(2) step.hyps(2) have "g \<in> attached bs c"
    using attached.child attached.step by blast
  with c(1) show ?case by blast
qed

lemma attached_unfold:
  "attached bs p = (\<Union>c\<in>{c. childOf bs c p}. insert c (attached bs c))"
proof
  show "attached bs p \<subseteq> (\<Union>c\<in>{c. childOf bs c p}. insert c (attached bs c))"
    using attached_first by fastforce
  show "(\<Union>c\<in>{c. childOf bs c p}. insert c (attached bs c)) \<subseteq> attached bs p"
    using attached_child_subset by fastforce
qed

lemma forEachChild_keys:
  assumes sub: "\<And>c pos pos'. c \<in> set cs \<Longrightarrow> c \<in> fst ` set pos \<Longrightarrow>
                  positionBranch d cm c pos = Inr pos' \<Longrightarrow> fst ` set pos' = fst ` set pos \<union> A c"
    and run: "forEachChild d cm pp sy r l cs idx pos = Inr pos'"
  shows "fst ` set pos' = fst ` set pos \<union> (\<Union>c\<in>set cs. insert c (A c))"
  using sub run
proof (induction cs arbitrary: idx pos)
  case Nil
  then show ?case by simp
next
  case (Cons c cs)
  from forEachChild_Cons_Inr[OF Cons.prems(2)] obtain v p2 where
    a: "positionBranch d cm c (obj_set c v pos) = Inr p2" and
    b: "forEachChild d cm pp sy r l cs (idx + 1) p2 = Inr pos'"
    by blast
  have k2: "fst ` set p2 = insert c (fst ` set pos) \<union> A c"
    using Cons.prems(1)[of c "obj_set c v pos" p2] a by (simp add: keys_obj_set)
  have "fst ` set pos' = fst ` set p2 \<union> (\<Union>c\<in>set cs. insert c (A c))"
  proof (rule Cons.IH[OF _ b])
    fix c' q q'
    assume "c' \<in> set cs" "c' \<in> fst ` set q" "positionBranch d cm c' q = Inr q'"
    then show "fst ` set q' = fst ` set q \<union> A c'"
      using Cons.prems(1)[of c' q q'] by simp
  qed
  with k2 show ?case by auto
qed

lemma positionBranch_keys:
  assumes cm: "\<And>p c. c \<in> set (childrenOf cm p) \<longleftrightarrow> childOf bs c p"
  shows "positionBranch d cm bid pos = Inr pos' \<Longrightarrow> bid \<in> fst ` set pos \<Longrightarrow>
         fst ` set pos' = fst ` set pos \<union> attached bs bid"
proof (induction d arbitrary: bid pos pos')
  case 0
  then show ?case by simp
next
  case (Suc d)
  have un: "attached bs bid = (\<Union>c\<in>set (childrenOf cm bid). insert c (attached bs c))"
    using attached_unfold[of bs bid] cm by auto
  from Suc.prems(2) have "map_of pos bid \<noteq> None"
    by (simp add: map_of_eq_None_iff)
  with positionBranch_Suc_Inr[OF Suc.prems(1)] consider
      (leaf) "pos' = pos" "childrenOf cm bid = []"
    | (loop) pp sy r l where
        "forEachChild d cm pp sy r l (childrenOf cm bid) 0 pos = Inr pos'"
    by blast
  then show ?case
  proof cases
    case leaf
    with un show ?thesis by simp
  next
    case loop
    have "fst ` set pos' = fst ` set pos \<union> (\<Union>c\<in>set (childrenOf cm bid). insert c (attached bs c))"
    proof (rule forEachChild_keys[OF _ loop])
      fix c q q'
      assume "c \<in> set (childrenOf cm bid)" "c \<in> fst ` set q" "positionBranch d cm c q = Inr q'"
      then show "fst ` set q' = fst ` set q \<union> attached bs c"
        using Suc.IH by blast
    qed
    with un show ?thesis by simp
  qed
qed

section \<open>What the overlap pass writes\<close>

text \<open>
  The pass assigns only keys of later entries, all of them keys that exist: the keys and their
  order stay, and an entry that is the first of the enumeration keeps its value.
\<close>

lemma resolvePair_other:
  "k \<noteq> fst e2 \<Longrightarrow> map_of (resolvePair e1 e2 res) k = map_of res k"
  by (simp add: resolvePair_def Let_def map_of_obj_set)

lemma resolvePair_keys:
  "fst e2 \<in> fst ` set res \<Longrightarrow> map fst (resolvePair e1 e2 res) = map fst res"
  by (simp add: resolvePair_def Let_def map_fst_obj_set)

lemma fold_resolvePair_other:
  "k \<notin> fst ` set es \<Longrightarrow> map_of (fold (resolvePair e1) es res) k = map_of res k"
  by (induction es arbitrary: res) (auto simp: resolvePair_other)

lemma fold_resolvePair_keys:
  "fst ` set es \<subseteq> fst ` set res \<Longrightarrow> map fst (fold (resolvePair e1) es res) = map fst res"
proof (induction es arbitrary: res)
  case Nil
  then show ?case by simp
next
  case (Cons e es)
  then have k: "map fst (resolvePair e1 e res) = map fst res"
    by (simp add: resolvePair_keys)
  then have "fst ` set (resolvePair e1 e res) = fst ` set res"
    by (metis list.set_map)
  with Cons k show ?case by simp
qed

lemma resolveLoop_other:
  "k \<notin> fst ` set (tl es) \<Longrightarrow> map_of (resolveLoop es res) k = map_of res k"
proof (induction es arbitrary: res)
  case Nil
  then show ?case by simp
next
  case (Cons e es)
  then have "k \<notin> fst ` set (tl es)"
    by (cases es) auto
  with Cons show ?case
    by (simp add: fold_resolvePair_other)
qed

lemma resolveLoop_keys:
  "fst ` set es \<subseteq> fst ` set res \<Longrightarrow> map fst (resolveLoop es res) = map fst res"
proof (induction es arbitrary: res)
  case Nil
  then show ?case by simp
next
  case (Cons e es)
  then have k: "map fst (fold (resolvePair e) es res) = map fst res"
    by (simp add: fold_resolvePair_keys)
  then have "fst ` set (fold (resolvePair e) es res) = fst ` set res"
    by (metis list.set_map)
  with Cons k show ?case by simp
qed

lemma resolveOverlaps_keys: "map fst (resolveOverlaps ps) = map fst (ownEntries ps)"
  by (simp add: resolveOverlaps_def Let_def resolveLoop_keys)

lemma resolveOverlaps_key_set: "fst ` set (resolveOverlaps ps) = fst ` set ps"
proof -
  have "fst ` set (resolveOverlaps ps) = set (map fst (resolveOverlaps ps))"
    by simp
  also have "\<dots> = set (map fst (ownEntries ps))"
    by (simp only: resolveOverlaps_keys)
  also have "\<dots> = fst ` set ps"
    by (simp add: set_ownEntries)
  finally show ?thesis .
qed

lemma resolveOverlaps_first:
  assumes "ownEntries ((k, v) # ps) = (k, v) # ps" and "distinct (map fst ((k, v) # ps))"
  shows "map_of (resolveOverlaps ((k, v) # ps)) k = Some v"
proof -
  have "k \<notin> fst ` set (tl ((k, v) # ps))"
    using assms(2) by simp
  then have "map_of (resolveLoop ((k, v) # ps) ((k, v) # ps)) k = map_of ((k, v) # ps) k"
    by (rule resolveLoop_other)
  then show ?thesis
    by (simp add: resolveOverlaps_def Let_def assms(1))
qed

section \<open>The result of the layout call\<close>

lemma attached_is_child: "g \<in> attached bs p \<Longrightarrow> \<exists>q. childOf bs g q"
  by (induction rule: attached.induct) blast+

lemma attached_ids: "g \<in> attached bs p \<Longrightarrow> g \<in> b_id ` set bs"
  using attached_is_child childOf_id by blast

lemma root_not_attached:
  assumes "distinct (map b_id bs)" "b \<in> set bs" "isRoot b"
  shows "b_id b \<notin> attached bs p"
  using assms attached_is_child childOf_not_root by blast

lemma find_filter_hd:
  "find P xs = (case filter P xs of [] \<Rightarrow> None | x # _ \<Rightarrow> Some x)"
  by (induction xs) auto

lemma layout_result:
  assumes d: "distinct (map b_id (branchesOf conv))"
    and pl: "plainIds (branchesOf conv)" "plainParents (branchesOf conv)"
    and f: "find isRoot (branchesOf conv) = Some rootBranch"
  shows "\<exists>ps. calculateOptimalBranchPositions conv
               = Inr (resolveOverlaps ((b_id rootBranch, canvasCenter conv) # ps))
            \<and> distinct (map fst ((b_id rootBranch, canvasCenter conv) # ps))
            \<and> fst ` set ((b_id rootBranch, canvasCenter conv) # ps)
                = insert (b_id rootBranch) (attached (branchesOf conv) (b_id rootBranch))"
proof -
  let ?bs = "branchesOf conv"
  let ?init = "[(b_id rootBranch, canvasCenter conv)]"
  from forEachBranch_returns[OF plainParents_no_inherited[OF pl(2)]] obtain cm where
    cm: "forEachBranch ?bs [] = Inr cm"
    by blast
  from f have r: "rootBranch \<in> set ?bs" "isRoot rootBranch"
    using find_isRoot by blast+
  from positionBranch_root_total[OF d pl(1) cm r] obtain pos where
    run: "positionBranch (Suc (length ?bs)) cm (b_id rootBranch) ?init = Inr pos"
    by blast
  have nc: "b_id rootBranch \<notin> set (childrenOf cm p)" for p
    using childOf_not_root[OF d _ r(1)] r(2) by (auto simp: childrenOf_childrenMap[OF cm])
  from positionBranch_head[OF run nc] obtain ps where
    ps: "pos = (b_id rootBranch, canvasCenter conv) # ps"
    by blast
  have "distinct (map fst pos)"
    using positionBranch_distinct[OF run] by simp
  moreover have "fst ` set pos = insert (b_id rootBranch) (attached ?bs (b_id rootBranch))"
    using positionBranch_keys[OF childrenOf_childrenMap[OF cm] run] by simp
  moreover have "calculateOptimalBranchPositions conv = Inr (resolveOverlaps pos)"
    using f run plain_root[OF pl(1) r(1)] by (simp add: calculate_unfold[OF cm])
  ultimately show ?thesis
    using ps by blast
qed

text \<open>The layout call never ends where the model does not follow the source.\<close>

lemma forEachBranch_keys:
  "forEachBranch bs cm0 = Inr cm \<Longrightarrow> \<forall>k\<in>fst ` set cm0. k \<notin> set protoNames \<Longrightarrow>
   \<forall>k\<in>fst ` set cm. k \<notin> set protoNames"
proof (induction bs arbitrary: cm0)
  case Nil
  then show ?case by simp
next
  case (Cons b bs)
  from Cons.prems(1) obtain cm1 where
    a: "addChild b cm0 = Inr cm1" and r: "forEachBranch bs cm1 = Inr cm"
    by (auto split: sum.splits)
  from Cons.IH[OF r addChild_keys[OF a Cons.prems(2)]] show ?case .
qed

lemma positionBranch_proto_throws:
  assumes "map_of cm ''__proto__'' = None"
  shows "\<exists>e. e \<noteq> Unmodelled \<and> positionBranch d cm ''__proto__'' pos = Inl e"
  using assms proto_in_protoNames
  by (cases d) (simp_all add: obj_get_def lengthZeroNames_def)

lemma forEachChild_modelled:
  assumes sub: "\<And>c q. positionBranch d cm c q \<noteq> Inl Unmodelled"
    and np: "map_of cm ''__proto__'' = None"
  shows "forEachChild d cm pp sy r l cs idx pos \<noteq> Inl Unmodelled"
proof (induction cs arbitrary: idx pos)
  case Nil
  show ?case by simp
next
  case (Cons c cs)
  show ?case
  proof (cases "replacesPrototype c pos")
    case True
    then have "c = ''__proto__''"
      by (simp add: replacesPrototype_def)
    with positionBranch_proto_throws[OF np, of d pos] True show ?thesis
      by (auto simp: Let_def)
  next
    case False
    with sub Cons.IH show ?thesis
      by (auto simp: Let_def split: sum.splits)
  qed
qed

lemma positionBranch_modelled:
  assumes cm: "\<forall>k\<in>fst ` set cm. k \<notin> set protoNames"
  shows "positionBranch d cm bid pos \<noteq> Inl Unmodelled"
proof (induction d arbitrary: bid pos)
  case 0
  show ?case by simp
next
  case (Suc d)
  have np: "map_of cm ''__proto__'' = None"
    using cm proto_in_protoNames by (metis domIff dom_map_of_conv_image_fst)
  have loop: "forEachChild d cm pp sy r l cs idx q \<noteq> Inl Unmodelled" for pp sy r l cs idx q
    using forEachChild_modelled[of d cm, OF Suc.IH np] .
  show ?case
  proof (cases "obj_get cm bid")
    case (Own cs)
    then have "bid \<in> fst ` set cm"
      by (metis obj_get_member image_eqI fst_conv)
    with cm have "bid \<notin> set protoNames" by blast
    then have "obj_get pos bid \<noteq> Inherited"
      by (simp add: obj_get_Inherited)
    with Own loop show ?thesis
      by (auto simp: Let_def split: property.splits)
  qed simp_all
qed

lemma calculate_modelled: "calculateOptimalBranchPositions conversation \<noteq> Inl Unmodelled"
proof (cases "forEachBranch (branchesOf conversation) []")
  case (Inl e)
  then have "e = TypeError"
    using forEachBranch_returns[of "branchesOf conversation" "[]"]
      forEachBranch_throws[of "branchesOf conversation" "[]"]
    by fastforce
  with Inl show ?thesis
    by (simp add: calculate_throws)
next
  case (Inr cm)
  from forEachBranch_keys[OF Inr] have k: "\<forall>k\<in>fst ` set cm. k \<notin> set protoNames"
    by simp
  have p: "map_of cm ''__proto__'' = None"
    using k proto_in_protoNames by (metis domIff dom_map_of_conv_image_fst)
  show ?thesis
  proof (cases "find isRoot (branchesOf conversation)")
    case None
    then show ?thesis by (simp add: calculate_unfold[OF Inr])
  next
    case (Some r)
    let ?n = "Suc (length (branchesOf conversation))"
    show ?thesis
    proof (cases "b_id r = ''__proto__''")
      case True
      from positionBranch_proto_throws[OF p, of ?n "[]"] obtain e where
        "e \<noteq> Unmodelled" "positionBranch ?n cm ''__proto__'' [] = Inl e"
        by blast
      with Some True show ?thesis
        by (simp add: calculate_unfold[OF Inr] del: positionBranch.simps)
    next
      case False
      have "map_sum id resolveOverlaps
              (positionBranch ?n cm (b_id r) [(b_id r, canvasCenter conversation)])
            \<noteq> Inl Unmodelled"
        using positionBranch_modelled[OF k, of ?n "b_id r" "[(b_id r, canvasCenter conversation)]"]
        by (cases "positionBranch ?n cm (b_id r) [(b_id r, canvasCenter conversation)]")
           simp_all
      with Some False show ?thesis
        by (simp add: calculate_unfold[OF Inr] del: positionBranch.simps)
    qed
  qed
qed

lemmas layout_eval = calculateOptimalBranchPositions_def conversationOf_def branchAt_def
  ownEntries_def isArrayIndex_def isDigit_def decimalValue_def digitVal_def addChild_def
  obj_get_def protoNames_def lengthZeroNames_def replacesPrototype_def
  isRoot_def truthy_def Let_def resolveOverlaps_def resolvePair_def overlapping_def
  HORIZONTAL_SPACING_def VERTICAL_SPACING_def BLOCK_HEIGHT_def BLOCK_WIDTH_def MIN_SPACING_def
  branchesOf_def plainIds_def plainParents_def inheritedParent_def

section \<open>The root's position\<close>

text \<open>
  Claim C6, as stated, fails. JavaScript enumerates the keys of an object that are array indices
  before all other keys. In the first mapping below the ids \<^verbatim>\<open>7\<close> and \<^verbatim>\<open>8\<close> are the children
  of \<^verbatim>\<open>a\<close>; the layout puts \<^verbatim>\<open>8\<close> at \<open>(800, 320)\<close>, over the root at \<open>(800, 400)\<close>, and the
  overlap pass, which meets \<^verbatim>\<open>8\<close> before \<^verbatim>\<open>main\<close>, moves the root to \<open>(800, 750)\<close>: the root
  is the unique branch without a parent and does not end at \<^verbatim>\<open>canvasCenter\<close>. In the second
  mapping the only branch, the root, has the id \<^verbatim>\<open>constructor\<close>; \<^verbatim>\<open>childrenMap[branchId]\<close> is
  then the function that every object inherits under this name, \<^verbatim>\<open>children.forEach\<close> is no
  function, and the call throws instead of giving the root a position.
\<close>

theorem root_displaced_counterexample:
  "calculateOptimalBranchPositions (conversationOf
     [branchAt ''main'' None \<lparr>px = 0, py = 0\<rparr>,
      branchAt ''a'' (Some ''main'') \<lparr>px = 0, py = 0\<rparr>,
      branchAt ''7'' (Some ''a'') \<lparr>px = 0, py = 0\<rparr>,
      branchAt ''8'' (Some ''a'') \<lparr>px = 0, py = 0\<rparr>]
     \<lparr>px = 800, py = 400\<rparr>) =
   Inr [(''7'', \<lparr>px = 1700, py = 170\<rparr>), (''8'', \<lparr>px = 800, py = 320\<rparr>),
        (''main'', \<lparr>px = 800, py = 750\<rparr>), (''a'', \<lparr>px = 1250, py = 285\<rparr>)]
   \<and> calculateOptimalBranchPositions (conversationOf
       [branchAt ''constructor'' None \<lparr>px = 0, py = 0\<rparr>] \<lparr>px = 800, py = 400\<rparr>)
     = Inl TypeError"
  by (simp add: layout_eval)

text \<open>
  Claim C6, amended. For every branch mapping whose ids are distinct, none of them an array
  index, and in which no id and no parent id is the name of a property that every object
  inherits from \<^verbatim>\<open>Object.prototype\<close> (the program itself creates only the ids \<^verbatim>\<open>main\<close> and
  \<^verbatim>\<open>branch-\<close> followed by a number), and for every \<^verbatim>\<open>canvasCenter\<close>: the layout call returns,
  and the position it gives to the root (the first branch without a parent, in particular the
  unique one) is \<^verbatim>\<open>canvasCenter\<close>: neither the placement of the children nor the overlap pass
  writes it.
\<close>

theorem root_stays_at_canvasCenter:
  assumes d: "distinct (map b_id (branchesOf conv))"
    and n: "\<forall>b\<in>set (branchesOf conv). \<not> isArrayIndex (b_id b)"
    and pl: "plainIds (branchesOf conv)" "plainParents (branchesOf conv)"
    and f: "find isRoot (branchesOf conv) = Some rootBranch"
  shows "\<exists>layout. calculateOptimalBranchPositions conv = Inr layout
            \<and> map_of layout (b_id rootBranch) = Some (canvasCenter conv)"
proof -
  from layout_result[OF d pl f] obtain ps where
    c: "calculateOptimalBranchPositions conv
          = Inr (resolveOverlaps ((b_id rootBranch, canvasCenter conv) # ps))" and
    dk: "distinct (map fst ((b_id rootBranch, canvasCenter conv) # ps))" and
    k: "fst ` set ((b_id rootBranch, canvasCenter conv) # ps)
          = insert (b_id rootBranch) (attached (branchesOf conv) (b_id rootBranch))"
    by blast
  from f have r: "rootBranch \<in> set (branchesOf conv)"
    using find_isRoot by blast
  have "\<forall>k\<in>fst ` set ((b_id rootBranch, canvasCenter conv) # ps). \<not> isArrayIndex k"
    unfolding k using n r attached_ids by blast
  then have "ownEntries ((b_id rootBranch, canvasCenter conv) # ps)
               = (b_id rootBranch, canvasCenter conv) # ps"
    by (rule ownEntries_plain)
  from resolveOverlaps_first[OF this dk] c show ?thesis
    by simp
qed

text \<open>
  The amended claim on a layout whose overlap pass has work to do: \<^verbatim>\<open>c\<close>, the second child of
  \<^verbatim>\<open>a\<close>, is placed over the root, and it is \<^verbatim>\<open>c\<close> that moves.
\<close>

theorem root_stays_at_canvasCenter_witness:
  "\<exists>layout. calculateOptimalBranchPositions (conversationOf
       [branchAt ''main'' None \<lparr>px = 0, py = 0\<rparr>,
        branchAt ''a'' (Some ''main'') \<lparr>px = 0, py = 0\<rparr>,
        branchAt ''b'' (Some ''a'') \<lparr>px = 0, py = 0\<rparr>,
        branchAt ''c'' (Some ''a'') \<lparr>px = 0, py = 0\<rparr>]
       \<lparr>px = 800, py = 400\<rparr>) = Inr layout
     \<and> map_of layout ''main'' = Some \<lparr>px = 800, py = 400\<rparr>"
proof -
  let ?conv = "conversationOf
       [branchAt ''main'' None \<lparr>px = 0, py = 0\<rparr>,
        branchAt ''a'' (Some ''main'') \<lparr>px = 0, py = 0\<rparr>,
        branchAt ''b'' (Some ''a'') \<lparr>px = 0, py = 0\<rparr>,
        branchAt ''c'' (Some ''a'') \<lparr>px = 0, py = 0\<rparr>]
       \<lparr>px = 800, py = 400\<rparr>"
  have h1: "distinct (map b_id (branchesOf ?conv))"
    by (simp add: layout_eval)
  have h2: "\<forall>b\<in>set (branchesOf ?conv). \<not> isArrayIndex (b_id b)"
    by (simp add: layout_eval)
  have h3: "find isRoot (branchesOf ?conv) = Some (branchAt ''main'' None \<lparr>px = 0, py = 0\<rparr>)"
    by (simp add: layout_eval)
  have h4: "plainIds (branchesOf ?conv)"
    by (simp add: layout_eval)
  have h5: "plainParents (branchesOf ?conv)"
    by (simp add: layout_eval)
  show ?thesis
    using root_stays_at_canvasCenter[OF h1 h2 h4 h5 h3]
    by (simp add: branchAt_def conversationOf_def)
qed

section \<open>Mappings without a unique root\<close>

text \<open>
  Claim C2, as stated, fails: the layout call has no error \<^verbatim>\<open>NoRoot\<close> to raise. For a mapping
  with no branch without a parent (two branches that name each other as parent) it returns the
  empty mapping; for a mapping with two branches without a parent it returns a layout of the
  first one and of what hangs from it.
\<close>

theorem no_root_error_counterexample:
  "filter isRoot (branchesOf (conversationOf
       [branchAt ''a'' (Some ''b'') \<lparr>px = 0, py = 0\<rparr>,
        branchAt ''b'' (Some ''a'') \<lparr>px = 0, py = 0\<rparr>] \<lparr>px = 800, py = 400\<rparr>)) = []
   \<and> calculateOptimalBranchPositions (conversationOf
       [branchAt ''a'' (Some ''b'') \<lparr>px = 0, py = 0\<rparr>,
        branchAt ''b'' (Some ''a'') \<lparr>px = 0, py = 0\<rparr>] \<lparr>px = 800, py = 400\<rparr>) = Inr []
   \<and> length (filter isRoot (branchesOf (conversationOf
       [branchAt ''main'' None \<lparr>px = 0, py = 0\<rparr>,
        branchAt ''second'' None \<lparr>px = 0, py = 0\<rparr>,
        branchAt ''a'' (Some ''second'') \<lparr>px = 0, py = 0\<rparr>] \<lparr>px = 800, py = 400\<rparr>))) = 2
   \<and> calculateOptimalBranchPositions (conversationOf
       [branchAt ''main'' None \<lparr>px = 0, py = 0\<rparr>,
        branchAt ''second'' None \<lparr>px = 0, py = 0\<rparr>,
        branchAt ''a'' (Some ''second'') \<lparr>px = 0, py = 0\<rparr>] \<lparr>px = 800, py = 400\<rparr>)
       = Inr [(''main'', \<lparr>px = 800, py = 400\<rparr>)]"
  by (simp add: layout_eval)

text \<open>
  Claim C2, amended. The call builds its index of children before it looks for a root, and this
  throws a \<^verbatim>\<open>TypeError\<close> when some truthy parent id is the name of a property that every object
  inherits from \<^verbatim>\<open>Object.prototype\<close> (such as \<^verbatim>\<open>constructor\<close>), whatever the roots. When no
  parent id is such a name and the mapping contains no branch lacking a parent, the call returns
  the empty mapping of positions. When no id and no parent id is such a name, the ids are
  distinct and more than one branch lacks a parent, the call returns a layout of exactly the first
  of them in enumeration order and the branches that hang from it; the other branches without a
  parent get no position. In neither case is an error \<^verbatim>\<open>NoRoot\<close> raised or reported.
\<close>

theorem layout_without_unique_root:
  "(plainParents (branchesOf conv) \<and> filter isRoot (branchesOf conv) = [] \<longrightarrow>
      calculateOptimalBranchPositions conv = Inr [])
   \<and> (plainIds (branchesOf conv) \<and> plainParents (branchesOf conv)
       \<and> distinct (map b_id (branchesOf conv)) \<and> 1 < length (filter isRoot (branchesOf conv)) \<longrightarrow>
        (\<exists>layout. calculateOptimalBranchPositions conv = Inr layout
           \<and> fst ` set layout
               = insert (b_id (hd (filter isRoot (branchesOf conv))))
                   (attached (branchesOf conv) (b_id (hd (filter isRoot (branchesOf conv)))))
           \<and> (\<forall>b\<in>set (tl (filter isRoot (branchesOf conv))). b_id b \<notin> fst ` set layout)))
   \<and> (list_ex inheritedParent (branchesOf conv) \<longrightarrow>
        calculateOptimalBranchPositions conv = Inl TypeError)"
proof (intro conjI impI)
  assume a: "plainParents (branchesOf conv) \<and> filter isRoot (branchesOf conv) = []"
  from forEachBranch_returns[OF plainParents_no_inherited] a obtain cm where
    "forEachBranch (branchesOf conv) [] = Inr cm"
    by blast
  with a show "calculateOptimalBranchPositions conv = Inr []"
    by (simp add: calculate_unfold find_filter_hd)
next
  let ?bs = "branchesOf conv"
  assume a: "plainIds ?bs \<and> plainParents ?bs
       \<and> distinct (map b_id ?bs) \<and> 1 < length (filter isRoot ?bs)"
  then have d: "distinct (map b_id ?bs)" and pl: "plainIds ?bs" "plainParents ?bs"
    by simp_all
  from a obtain r rest where fr: "filter isRoot ?bs = r # rest"
    by (cases "filter isRoot ?bs") auto
  then have f: "find isRoot ?bs = Some r"
    by (simp add: find_filter_hd)
  from layout_result[OF d pl f] obtain ps where
    c: "calculateOptimalBranchPositions conv
          = Inr (resolveOverlaps ((b_id r, canvasCenter conv) # ps))" and
    k: "fst ` set ((b_id r, canvasCenter conv) # ps) = insert (b_id r) (attached ?bs (b_id r))"
    by blast
  have keys: "fst ` set (resolveOverlaps ((b_id r, canvasCenter conv) # ps))
                = insert (b_id r) (attached ?bs (b_id r))"
    using k by (simp only: resolveOverlaps_key_set)
  have dr: "distinct (r # rest)"
    using d fr by (metis distinct_filter distinct_map)
  have other: "b_id b \<notin> insert (b_id r) (attached ?bs (b_id r))" if "b \<in> set rest" for b
  proof -
    have mem: "set (r # rest) = {x \<in> set ?bs. isRoot x}"
      using fr by (metis set_filter)
    from that mem have b: "b \<in> set ?bs" "isRoot b"
      by auto
    from mem have rb: "r \<in> set ?bs"
      by auto
    from dr that have "b \<noteq> r" by auto
    with d b rb have "b_id b \<noteq> b_id r"
      by (auto simp: distinct_map dest: inj_onD)
    with root_not_attached[OF d b] show ?thesis by simp
  qed
  show "\<exists>layout. calculateOptimalBranchPositions conv = Inr layout
           \<and> fst ` set layout
               = insert (b_id (hd (filter isRoot ?bs))) (attached ?bs (b_id (hd (filter isRoot ?bs))))
           \<and> (\<forall>b\<in>set (tl (filter isRoot ?bs)). b_id b \<notin> fst ` set layout)"
    using c keys other fr by auto
next
  assume "list_ex inheritedParent (branchesOf conv)"
  then have "forEachBranch (branchesOf conv) [] = Inl TypeError"
    by (rule forEachBranch_throws) simp
  then show "calculateOptimalBranchPositions conv = Inl TypeError"
    by (rule calculate_throws)
qed

text \<open>
  The amended claim on the two mappings above, none without a parent and two of them, and on
  a root with a branch that names \<^verbatim>\<open>constructor\<close> as its parent.
\<close>

theorem layout_without_unique_root_witness:
  "calculateOptimalBranchPositions (conversationOf
       [branchAt ''a'' (Some ''b'') \<lparr>px = 0, py = 0\<rparr>,
        branchAt ''b'' (Some ''a'') \<lparr>px = 0, py = 0\<rparr>] \<lparr>px = 800, py = 400\<rparr>) = Inr []
   \<and> (\<exists>layout. calculateOptimalBranchPositions (conversationOf
       [branchAt ''main'' None \<lparr>px = 0, py = 0\<rparr>,
        branchAt ''second'' None \<lparr>px = 0, py = 0\<rparr>,
        branchAt ''a'' (Some ''main'') \<lparr>px = 0, py = 0\<rparr>] \<lparr>px = 800, py = 400\<rparr>) = Inr layout
        \<and> fst ` set layout = {''main'', ''a''})
   \<and> calculateOptimalBranchPositions (conversationOf
       [branchAt ''main'' None \<lparr>px = 0, py = 0\<rparr>,
        branchAt ''a'' (Some ''constructor'') \<lparr>px = 0, py = 0\<rparr>] \<lparr>px = 800, py = 400\<rparr>)
     = Inl TypeError"
proof -
  let ?none = "conversationOf
       [branchAt ''a'' (Some ''b'') \<lparr>px = 0, py = 0\<rparr>,
        branchAt ''b'' (Some ''a'') \<lparr>px = 0, py = 0\<rparr>] \<lparr>px = 800, py = 400\<rparr>"
  let ?bs = "[branchAt ''main'' None \<lparr>px = 0, py = 0\<rparr>,
        branchAt ''second'' None \<lparr>px = 0, py = 0\<rparr>,
        branchAt ''a'' (Some ''main'') \<lparr>px = 0, py = 0\<rparr>]"
  let ?two = "conversationOf ?bs \<lparr>px = 800, py = 400\<rparr>"
  let ?thrown = "conversationOf
       [branchAt ''main'' None \<lparr>px = 0, py = 0\<rparr>,
        branchAt ''a'' (Some ''constructor'') \<lparr>px = 0, py = 0\<rparr>] \<lparr>px = 800, py = 400\<rparr>"
  have h0: "plainParents (branchesOf ?none) \<and> filter isRoot (branchesOf ?none) = []"
    by (simp add: layout_eval)
  have h1: "plainIds (branchesOf ?two) \<and> plainParents (branchesOf ?two)
       \<and> distinct (map b_id (branchesOf ?two)) \<and> 1 < length (filter isRoot (branchesOf ?two))"
    by (simp add: layout_eval)
  have h2: "list_ex inheritedParent (branchesOf ?thrown)"
    by (simp add: layout_eval)
  have bs: "branchesOf ?two = ?bs"
    by (simp add: layout_eval)
  have f: "filter isRoot ?bs
             = [branchAt ''main'' None \<lparr>px = 0, py = 0\<rparr>, branchAt ''second'' None \<lparr>px = 0, py = 0\<rparr>]"
    by (simp add: layout_eval)
  have att: "attached ?bs ''main'' = {''a''}"
  proof
    show "attached ?bs ''main'' \<subseteq> {''a''}"
    proof
      fix g
      assume "g \<in> attached ?bs ''main''"
      then show "g \<in> {''a''}"
        by (induction rule: attached.induct) (auto simp: childOf_def branchAt_def)
    qed
    show "{''a''} \<subseteq> attached ?bs ''main''"
      using attached.child[of ?bs "''a''" "''main''"] by (simp add: childOf_def branchAt_def)
  qed
  from layout_without_unique_root[of ?none] h0
  have "calculateOptimalBranchPositions ?none = Inr []"
    by blast
  moreover from layout_without_unique_root[of ?two] h1
  have "\<exists>layout. calculateOptimalBranchPositions ?two = Inr layout
           \<and> fst ` set layout
               = insert (b_id (hd (filter isRoot (branchesOf ?two))))
                   (attached (branchesOf ?two) (b_id (hd (filter isRoot (branchesOf ?two)))))
           \<and> (\<forall>b\<in>set (tl (filter isRoot (branchesOf ?two))). b_id b \<notin> fst ` set layout)"
    by blast
  then have "\<exists>layout. calculateOptimalBranchPositions ?two = Inr layout
        \<and> fst ` set layout = {''main'', ''a''}"
    unfolding bs f by (auto simp: branchAt_def att[unfolded branchAt_def])
  moreover from layout_without_unique_root[of ?thrown] h2
  have "calculateOptimalBranchPositions ?thrown = Inl TypeError"
    by blast
  ultimately show ?thesis by blast
qed

section \<open>A parent link to a branch that does not exist\<close>

text \<open>
  The layout does not look at a branch whose parent is no branch: a deeper bound on the recursion
  changes no result, two children indexes that agree on every branch id give the same layout,
  and so the layout with the dangling branch is the layout without it.
\<close>

lemma find_filter_keeps:
  "\<forall>x\<in>set xs. P x \<longrightarrow> Q x \<Longrightarrow> find P (filter Q xs) = find P xs"
  by (induction xs) auto

lemma ownEntries_filter: "ownEntries (filter Q kvs) = filter Q (ownEntries kvs)"
proof -
  have "filter Q (sort_key (\<lambda>kv. decimalValue (fst kv)) (filter (\<lambda>kv. isArrayIndex (fst kv)) kvs))
          = sort_key (\<lambda>kv. decimalValue (fst kv)) (filter (\<lambda>kv. isArrayIndex (fst kv)) (filter Q kvs))"
    by (simp add: filter_sort conj_commute)
  moreover have "filter Q (filter (\<lambda>kv. \<not> isArrayIndex (fst kv)) kvs)
          = filter (\<lambda>kv. \<not> isArrayIndex (fst kv)) (filter Q kvs)"
    by (simp add: conj_commute)
  ultimately show ?thesis
    by (simp add: ownEntries_def)
qed

lemma branchesOf_withoutBranch:
  "branchesOf (withoutBranch k conv) = filter (\<lambda>b. b_id b \<noteq> k) (branchesOf conv)"
  by (simp add: branchesOf_def withoutBranch_def ownEntries_filter filter_map comp_def)

lemma forEachChild_step:
  "forEachChild d cm pp sy ri le (c # cs) idx pos =
     (if replacesPrototype c pos then
        (case positionBranch d cm c pos of Inl e \<Rightarrow> Inl e | Inr p2 \<Rightarrow> Inl Unmodelled)
      else
        (case positionBranch d cm c (obj_set c (childPoint pp sy ri le idx) pos) of
           Inl e \<Rightarrow> Inl e
         | Inr p2 \<Rightarrow> forEachChild d cm pp sy ri le cs (idx + 1) p2))"
  by (simp add: Let_def childPoint_def)

lemma forEachChild_more_depth:
  assumes "\<And>c q r. positionBranch d cm c q = Inr r \<Longrightarrow> positionBranch (Suc d) cm c q = Inr r"
  shows "forEachChild d cm pp sy ri le cs idx pos = Inr res
         \<Longrightarrow> forEachChild (Suc d) cm pp sy ri le cs idx pos = Inr res"
proof (induction cs arbitrary: idx pos)
  case Nil
  then show ?case by simp
next
  case (Cons c cs)
  from Cons.prems obtain p2 where
    s: "\<not> replacesPrototype c pos" and
    a: "positionBranch d cm c (obj_set c (childPoint pp sy ri le idx) pos) = Inr p2" and
    b: "forEachChild d cm pp sy ri le cs (idx + 1) p2 = Inr res"
    by (auto simp only: forEachChild_step split: sum.splits if_splits)
  have a': "positionBranch (Suc d) cm c (obj_set c (childPoint pp sy ri le idx) pos) = Inr p2"
    using assms[OF a] .
  have b': "forEachChild (Suc d) cm pp sy ri le cs (idx + 1) p2 = Inr res"
    using Cons.IH[OF b] .
  show ?case
    by (simp only: forEachChild_step s a' b' sum.case if_False)
qed

lemma positionBranch_loop:
  assumes "obj_get cm bid = Own cs" "cs \<noteq> []" "obj_get pos bid = Own pp"
  shows "positionBranch (Suc d) cm bid pos
           = forEachChild d cm pp
               (py pp - (max (real (length cs) * VERTICAL_SPACING) BLOCK_HEIGHT / 2)
                 + (VERTICAL_SPACING / 2))
               (length (filter (\<lambda>q. px q > px pp) (map snd (ownEntries pos))))
               (length (filter (\<lambda>q. px q < px pp) (map snd (ownEntries pos))))
               cs 0 pos"
  using assms by (simp add: Let_def)

lemma positionBranch_no_loop:
  assumes "\<not> (\<exists>cs pp. obj_get cm bid = Own cs \<and> cs \<noteq> [] \<and> obj_get pos bid = Own pp)"
  shows "positionBranch (Suc d) cm bid pos = positionBranch (Suc 0) cm bid pos"
  using assms by (auto simp: Let_def split: property.splits)

lemma positionBranch_more_depth:
  "positionBranch d cm bid pos = Inr res \<Longrightarrow> positionBranch (Suc d) cm bid pos = Inr res"
proof (induction d arbitrary: bid pos res)
  case 0
  then show ?case by simp
next
  case (Suc d)
  have loop: "forEachChild d cm pp sy ri le cs idx q = Inr r
         \<Longrightarrow> forEachChild (Suc d) cm pp sy ri le cs idx q = Inr r" for pp sy ri le cs idx q r
    using forEachChild_more_depth[of d cm] Suc.IH by blast
  show ?case
  proof (cases "\<exists>cs pp. obj_get cm bid = Own cs \<and> cs \<noteq> [] \<and> obj_get pos bid = Own pp")
    case False
    from positionBranch_no_loop[OF False, of "Suc d"] positionBranch_no_loop[OF False, of d]
      Suc.prems
    show ?thesis by (simp only:)
  next
    case True
    then obtain cs pp where run: "obj_get cm bid = Own cs" "cs \<noteq> []" "obj_get pos bid = Own pp"
      by blast
    from Suc.prems show ?thesis
      unfolding positionBranch_loop[OF run] by (rule loop)
  qed
qed

lemma forEachChild_agree:
  assumes "\<And>c q. c \<in> set cs \<Longrightarrow> positionBranch d cm c q = positionBranch d cm' c q"
  shows "forEachChild d cm pp sy ri le cs idx pos = forEachChild d cm' pp sy ri le cs idx pos"
  using assms
proof (induction cs arbitrary: idx pos)
  case Nil
  show ?case by simp
next
  case (Cons c cs)
  then show ?case
    by (simp add: Let_def split: sum.splits)
qed

lemma positionBranch_agree:
  assumes closed: "\<And>p. p \<in> S \<Longrightarrow> obj_get cm p = obj_get cm' p \<and> set (childrenOf cm p) \<subseteq> S"
  shows "bid \<in> S \<Longrightarrow> positionBranch d cm bid pos = positionBranch d cm' bid pos"
proof (induction d arbitrary: bid pos)
  case 0
  show ?case by simp
next
  case (Suc d)
  from closed[OF Suc.prems] have same: "obj_get cm' bid = obj_get cm bid"
    and sub: "set (childrenOf cm bid) \<subseteq> S"
    by auto
  show ?case
  proof (cases "\<exists>cs pp. obj_get cm bid = Own cs \<and> cs \<noteq> [] \<and> obj_get pos bid = Own pp")
    case False
    then show ?thesis
      by (auto simp: same Let_def split: property.splits)
  next
    case True
    then obtain cs pp where run: "obj_get cm bid = Own cs" "cs \<noteq> []" "obj_get pos bid = Own pp"
      by blast
    from run(1) have "childrenOf cm bid = cs"
      by (simp add: obj_get_Own childrenOf_def)
    with sub have "set cs \<subseteq> S" by simp
    then have "forEachChild d cm pp sy ri le cs idx q
          = forEachChild d cm' pp sy ri le cs idx q" for pp sy ri le idx q
      using forEachChild_agree[of cs d cm cm'] Suc.IH by blast
    then show ?thesis
      unfolding positionBranch_loop[OF run] positionBranch_loop[OF run(1)[folded same] run(2,3)] .
  qed
qed

lemma positionBranch_deeper:
  "d \<le> d' \<Longrightarrow> positionBranch d cm bid pos = Inr res \<Longrightarrow> positionBranch d' cm bid pos = Inr res"
proof (induction d' arbitrary: d)
  case 0
  then show ?case by simp
next
  case (Suc d')
  show ?case
  proof (cases "d = Suc d'")
    case True
    with Suc.prems show ?thesis by simp
  next
    case False
    with Suc.prems have "d \<le> d'" by simp
    from Suc.IH[OF this Suc.prems(2)] show ?thesis
      by (rule positionBranch_more_depth)
  qed
qed

lemma plainIds_filter: "plainIds bs \<Longrightarrow> plainIds (filter Q bs)"
  by (simp add: plainIds_def list_all_iff)

lemma plainParents_filter: "plainParents bs \<Longrightarrow> plainParents (filter Q bs)"
  by (simp add: plainParents_def list_all_iff)

lemma layout_without_dangling:
  assumes d: "distinct (map b_id (branchesOf conv))"
    and pl: "plainIds (branchesOf conv)" "plainParents (branchesOf conv)"
    and f: "find isRoot (branchesOf conv) = Some rootBranch"
    and dg: "dangling \<in> set (branchesOf conv)" "parentBranchId dangling = Some ghost"
      "ghost \<noteq> []" "ghost \<notin> b_id ` set (branchesOf conv)"
  shows "calculateOptimalBranchPositions (withoutBranch (b_id dangling) conv)
           = calculateOptimalBranchPositions conv"
proof -
  let ?k = "b_id dangling"
  let ?bs = "branchesOf conv"
  let ?bs' = "filter (\<lambda>b. b_id b \<noteq> ?k) ?bs"
  let ?init = "[(b_id rootBranch, canvasCenter conv)]"
  from forEachBranch_returns[OF plainParents_no_inherited[OF pl(2)]] obtain cm where
    cm: "forEachBranch ?bs [] = Inr cm"
    by blast
  from forEachBranch_returns[OF plainParents_no_inherited[OF plainParents_filter[OF pl(2)]]]
  obtain cm' where cm': "forEachBranch ?bs' [] = Inr cm'"
    by blast
  have bs': "branchesOf (withoutBranch ?k conv) = ?bs'"
    by (rule branchesOf_withoutBranch)
  have inj: "inj_on b_id (set ?bs)"
    using d by (simp add: distinct_map)
  have only: "b = dangling" if "b \<in> set ?bs" "b_id b = ?k" for b
    using that dg(1) inj by (auto dest: inj_onD)
  have d': "distinct (map b_id ?bs')"
    using d by (rule distinct_map_filter)
  from f have r: "rootBranch \<in> set ?bs" "isRoot rootBranch"
    using find_isRoot by blast+
  have notroot: "\<not> isRoot dangling"
    using dg(2,3) by (simp add: isRoot_def truthy_def)
  have "\<forall>x\<in>set ?bs. isRoot x \<longrightarrow> b_id x \<noteq> ?k"
    using only notroot by blast
  then have f': "find isRoot ?bs' = Some rootBranch"
    using find_filter_keeps[of ?bs isRoot "\<lambda>b. b_id b \<noteq> ?k"] f by simp
  then have r': "rootBranch \<in> set ?bs'"
    using find_isRoot by blast
  from positionBranch_root_total[OF d' plainIds_filter[OF pl(1)] cm' r' r(2)] obtain pos where
    run': "positionBranch (Suc (length ?bs')) cm' (b_id rootBranch) ?init = Inr pos"
    by blast
  have closed: "obj_get cm' p = obj_get cm p \<and> set (childrenOf cm' p) \<subseteq> b_id ` set ?bs"
    if "p \<in> b_id ` set ?bs" for p
  proof -
    from that dg(4) have "p \<noteq> ghost" by blast
    have "b_id b \<noteq> ?k" if "b \<in> set ?bs" "parentBranchId b = Some p" for b
    proof
      assume "b_id b = ?k"
      with only that(1) have "b = dangling" by blast
      with that(2) dg(2) \<open>p \<noteq> ghost\<close> show False by simp
    qed
    then have "filter (\<lambda>b. parentBranchId b = Some p \<and> p \<noteq> []) ?bs'
                = filter (\<lambda>b. parentBranchId b = Some p \<and> p \<noteq> []) ?bs"
      by (auto intro!: filter_cong)
    then have same: "childrenOf cm' p = childrenOf cm p"
      by (simp only: forEachBranch_childrenOf[OF cm] forEachBranch_childrenOf[OF cm']
          childrenOf_empty)
    have "set (childrenOf cm p) \<subseteq> b_id ` set ?bs"
      by (auto simp: forEachBranch_childrenOf[OF cm] childrenOf_empty)
    with same show ?thesis
      by (simp add: childrenMap_get[OF cm] childrenMap_get[OF cm'])
  qed
  have "positionBranch (Suc (length ?bs')) cm' (b_id rootBranch) ?init
          = positionBranch (Suc (length ?bs')) cm (b_id rootBranch) ?init"
  proof (rule positionBranch_agree[where S = "b_id ` set ?bs"])
    fix p
    assume "p \<in> b_id ` set ?bs"
    then show "obj_get cm' p = obj_get cm p \<and> set (childrenOf cm' p) \<subseteq> b_id ` set ?bs"
      by (rule closed)
  next
    show "b_id rootBranch \<in> b_id ` set ?bs"
      using r(1) by blast
  qed
  with run' have "positionBranch (Suc (length ?bs')) cm (b_id rootBranch) ?init = Inr pos"
    by (simp only:)
  moreover have "Suc (length ?bs') \<le> Suc (length ?bs)"
    by simp
  ultimately have run: "positionBranch (Suc (length ?bs)) cm (b_id rootBranch) ?init = Inr pos"
    using positionBranch_deeper by blast
  have cc: "canvasCenter (withoutBranch ?k conv) = canvasCenter conv"
    by (simp add: withoutBranch_def)
  have np: "b_id rootBranch \<noteq> ''__proto__''"
    using plain_root[OF pl(1) r(1)] .
  have "calculateOptimalBranchPositions conv = Inr (resolveOverlaps pos)"
    using f run np by (simp add: calculate_unfold[OF cm])
  moreover have "calculateOptimalBranchPositions (withoutBranch ?k conv) = Inr (resolveOverlaps pos)"
    using f' run' np cm' by (simp add: calculate_unfold[of "withoutBranch ?k conv" cm'] bs' cc)
  ultimately show ?thesis by simp
qed

text \<open>
  Claim C5, as stated, fails. The call returns nothing but the mapping of positions, so no
  condition is reported; and a branch whose parent exists gets no position when that parent is
  the dangling branch: in the first mapping below, \<^verbatim>\<open>d\<close> names the missing \<^verbatim>\<open>ghost\<close> as its
  parent, \<^verbatim>\<open>e\<close> is a child of \<^verbatim>\<open>d\<close>, and the whole result is the position of the root. In
  the second mapping the missing parent id is \<^verbatim>\<open>constructor\<close>, which the children index
  inherits: no list is created for it, the inherited function has no \<^verbatim>\<open>push\<close>, and the call
  throws without a position for any branch.
\<close>

theorem dangling_parent_counterexample:
  "calculateOptimalBranchPositions (conversationOf
       [branchAt ''main'' None \<lparr>px = 0, py = 0\<rparr>,
        branchAt ''d'' (Some ''ghost'') \<lparr>px = 0, py = 0\<rparr>,
        branchAt ''e'' (Some ''d'') \<lparr>px = 0, py = 0\<rparr>] \<lparr>px = 800, py = 400\<rparr>)
     = Inr [(''main'', \<lparr>px = 800, py = 400\<rparr>)]
   \<and> calculateOptimalBranchPositions (conversationOf
       [branchAt ''main'' None \<lparr>px = 0, py = 0\<rparr>,
        branchAt ''a'' (Some ''main'') \<lparr>px = 0, py = 0\<rparr>,
        branchAt ''d'' (Some ''constructor'') \<lparr>px = 0, py = 0\<rparr>] \<lparr>px = 800, py = 400\<rparr>)
     = Inl TypeError"
  by (simp add: layout_eval)

text \<open>
  Claim C5, amended. For a mapping with distinct ids and a root, in which no id and no parent id
  is the name of a property that every object inherits from \<^verbatim>\<open>Object.prototype\<close> and a branch
  names as its parent an id that no branch has: the layout call returns a mapping of positions
  whose keys are exactly the root and the branches that hang from the root by parent links; the
  dangling branch is not among them. Nothing else is returned, and the mapping returned is the one
  the call returns for the conversation without the dangling branch: the result does not tell
  that there is one.
\<close>

theorem dangling_parent_layout:
  assumes d: "distinct (map b_id (branchesOf conv))"
    and pl: "plainIds (branchesOf conv)" "plainParents (branchesOf conv)"
    and f: "find isRoot (branchesOf conv) = Some rootBranch"
    and dg: "dangling \<in> set (branchesOf conv)" "parentBranchId dangling = Some ghost"
      "ghost \<noteq> []" "ghost \<notin> b_id ` set (branchesOf conv)"
  shows "\<exists>layout. calculateOptimalBranchPositions conv = Inr layout
           \<and> fst ` set layout
               = insert (b_id rootBranch) (attached (branchesOf conv) (b_id rootBranch))
           \<and> b_id dangling \<notin> fst ` set layout
           \<and> calculateOptimalBranchPositions (withoutBranch (b_id dangling) conv) = Inr layout"
proof -
  let ?bs = "branchesOf conv"
  from layout_result[OF d pl f] obtain ps where
    c: "calculateOptimalBranchPositions conv
          = Inr (resolveOverlaps ((b_id rootBranch, canvasCenter conv) # ps))" and
    k: "fst ` set ((b_id rootBranch, canvasCenter conv) # ps)
          = insert (b_id rootBranch) (attached ?bs (b_id rootBranch))"
    by blast
  have keys: "fst ` set (resolveOverlaps ((b_id rootBranch, canvasCenter conv) # ps))
                = insert (b_id rootBranch) (attached ?bs (b_id rootBranch))"
    using k by (simp only: resolveOverlaps_key_set)
  have ch: "childOf ?bs (b_id dangling) ghost"
    using dg by (auto simp: childOf_def)
  have rid: "b_id rootBranch \<in> b_id ` set ?bs"
    using find_isRoot[OF f] by blast
  have "b_id dangling \<notin> attached ?bs (b_id rootBranch)"
  proof
    assume "b_id dangling \<in> attached ?bs (b_id rootBranch)"
    then show False
    proof (cases rule: attached.cases)
      case child
      with ch childOf_unique[OF d] have "b_id rootBranch = ghost" by blast
      with rid dg(4) show ?thesis by simp
    next
      case (step q)
      with ch childOf_unique[OF d] have "q = ghost" by blast
      with step(1) attached_ids dg(4) show ?thesis by blast
    qed
  qed
  moreover have "b_id dangling \<noteq> b_id rootBranch"
    using childOf_not_root[OF d ch, of rootBranch] find_isRoot[OF f] by auto
  ultimately show ?thesis
    using c keys layout_without_dangling[OF d pl f dg] by auto
qed

text \<open>
  The amended claim on a root with one child and one dangling branch: the child is placed, the
  dangling branch is not.
\<close>

theorem dangling_parent_layout_witness:
  "\<exists>layout. calculateOptimalBranchPositions (conversationOf
       [branchAt ''main'' None \<lparr>px = 0, py = 0\<rparr>,
        branchAt ''a'' (Some ''main'') \<lparr>px = 0, py = 0\<rparr>,
        branchAt ''d'' (Some ''ghost'') \<lparr>px = 0, py = 0\<rparr>] \<lparr>px = 800, py = 400\<rparr>) = Inr layout
     \<and> ''a'' \<in> fst ` set layout \<and> ''d'' \<notin> fst ` set layout"
proof -
  let ?bs = "[branchAt ''main'' None \<lparr>px = 0, py = 0\<rparr>,
        branchAt ''a'' (Some ''main'') \<lparr>px = 0, py = 0\<rparr>,
        branchAt ''d'' (Some ''ghost'') \<lparr>px = 0, py = 0\<rparr>]"
  let ?conv = "conversationOf ?bs \<lparr>px = 800, py = 400\<rparr>"
  have bs: "branchesOf ?conv = ?bs"
    by (simp add: layout_eval)
  have h1: "distinct (map b_id (branchesOf ?conv))"
    by (simp add: layout_eval)
  have h2: "find isRoot (branchesOf ?conv) = Some (branchAt ''main'' None \<lparr>px = 0, py = 0\<rparr>)"
    by (simp add: layout_eval)
  have h3: "branchAt ''d'' (Some ''ghost'') \<lparr>px = 0, py = 0\<rparr> \<in> set (branchesOf ?conv)"
    by (simp add: layout_eval)
  have h4: "parentBranchId (branchAt ''d'' (Some ''ghost'') \<lparr>px = 0, py = 0\<rparr>) = Some ''ghost''"
    by (simp add: branchAt_def)
  have h5: "''ghost'' \<noteq> []" by simp
  have h6: "''ghost'' \<notin> b_id ` set (branchesOf ?conv)"
    by (simp add: layout_eval)
  have h7: "plainIds (branchesOf ?conv)"
    by (simp add: layout_eval)
  have h8: "plainParents (branchesOf ?conv)"
    by (simp add: layout_eval)
  have a: "''a'' \<in> attached (branchesOf ?conv) ''main''"
    unfolding bs by (rule attached.child) (simp add: childOf_def branchAt_def)
  show ?thesis
    using dangling_parent_layout[OF h1 h7 h8 h2 h3 h4 h5 h6] a
    by (auto simp: branchAt_def)
qed

section \<open>The overlap pass, block by block\<close>

text \<open>
  Every write of the pass to a key uses the positions before the pass, and the last write
  stands: the final position of a block is decided by the last earlier block it overlapped.
\<close>

lemma fold_resolvePair_at:
  assumes "distinct (map fst es)" "(k, p) \<in> set es"
  shows "map_of (fold (resolvePair e1) es res) k =
           (if overlapping (snd e1) p then Some (settled [snd e1] p) else map_of res k)"
  using assms
proof (induction es arbitrary: res)
  case Nil
  then show ?case by simp
next
  case (Cons e es)
  show ?case
  proof (cases "e = (k, p)")
    case True
    with Cons.prems have "k \<notin> fst ` set es" by auto
    then have "map_of (fold (resolvePair e1) (e # es) res) k = map_of (resolvePair e1 e res) k"
      by (simp add: fold_resolvePair_other)
    also have "\<dots> = (if overlapping (snd e1) p then Some (settled [snd e1] p) else map_of res k)"
      using True by (simp add: resolvePair_def Let_def map_of_obj_set settled_def)
    finally show ?thesis .
  next
    case False
    with Cons.prems have in_es: "(k, p) \<in> set es" and ne: "fst e \<noteq> k"
      by (auto simp: rev_image_eqI)
    from Cons.prems have "distinct (map fst es)" by simp
    from Cons.IH[OF this in_es, of "resolvePair e1 e res"] ne
    show ?thesis
      by (simp add: resolvePair_other)
  qed
qed

lemma resolveLoop_at:
  assumes "distinct (map fst (A @ (k, p) # C))"
  shows "map_of (resolveLoop (A @ (k, p) # C) res) k =
           (if filter (\<lambda>q. overlapping q p) (map snd A) = [] then map_of res k
            else Some (settled (map snd A) p))"
  using assms
proof (induction A arbitrary: res)
  case Nil
  then have "k \<notin> fst ` set (tl ((k, p) # C))" by simp
  then have "map_of (resolveLoop ((k, p) # C) res) k = map_of res k"
    by (rule resolveLoop_other)
  then show ?case by simp
next
  case (Cons a A)
  define res1 where "res1 = fold (resolvePair a) (A @ (k, p) # C) res"
  from Cons.prems have d: "distinct (map fst (A @ (k, p) # C))" by simp
  have r1: "map_of res1 k = (if overlapping (snd a) p then Some (settled [snd a] p) else map_of res k)"
    unfolding res1_def by (rule fold_resolvePair_at[OF d]) simp
  have "map_of (resolveLoop ((a # A) @ (k, p) # C) res) k
          = map_of (resolveLoop (A @ (k, p) # C) res1) k"
    by (simp add: res1_def)
  also have "\<dots> = (if filter (\<lambda>q. overlapping q p) (map snd A) = [] then map_of res1 k
            else Some (settled (map snd A) p))"
    by (rule Cons.IH[OF d])
  also have "\<dots> = (if filter (\<lambda>q. overlapping q p) (map snd (a # A)) = [] then map_of res k
            else Some (settled (map snd (a # A)) p))"
    by (auto simp: r1 settled_def Let_def)
  finally show ?case .
qed

lemma resolveOverlaps_at:
  assumes d: "distinct (map fst positions)" and e: "ownEntries positions = A @ (k, p) # C"
  shows "map_of (resolveOverlaps positions) k = Some (settled (map snd A) p)"
proof -
  have de: "distinct (map fst (A @ (k, p) # C))"
    using distinct_ownEntries[OF d] e by simp
  have m: "map_of (A @ (k, p) # C) k = Some p"
    by (rule map_of_is_SomeI[OF de]) simp
  show ?thesis
    unfolding resolveOverlaps_def Let_def e
    using resolveLoop_at[OF de, of "A @ (k, p) # C"] m
    by (auto simp: settled_def Let_def)
qed

lemma settled_px: "px (settled earlier p) = px p"
  by (simp add: settled_def Let_def)

lemma settled_none: "\<forall>q\<in>set earlier. \<not> overlapping q p \<Longrightarrow> settled earlier p = p"
  by (simp add: settled_def Let_def filter_empty_conv)

lemma settled_last:
  assumes "overlapping q p" "\<forall>q'\<in>set B. \<not> overlapping q' p"
  shows "settled (A @ q # B) p =
           p\<lparr>py := (if py p \<ge> py q then py q + 430 else py q - 430)\<rparr>"
proof -
  from assms(2) have "filter (\<lambda>q. overlapping q p) B = []"
    by (simp add: filter_empty_conv)
  with assms(1) have "filter (\<lambda>q. overlapping q p) (A @ q # B) = filter (\<lambda>q. overlapping q p) A @ [q]"
    by simp
  then show ?thesis
    by (simp add: settled_def Let_def BLOCK_HEIGHT_def MIN_SPACING_def)
qed

text \<open>
  Claim C4, as stated, fails. A root at \<open>(800, 400)\<close> with five children gets the positions
  below from the placement; \<^verbatim>\<open>a\<close>, \<^verbatim>\<open>c\<close> and \<^verbatim>\<open>e\<close> stand in one column, 300 apart. The pass
  moves \<^verbatim>\<open>c\<close> to 430 below \<^verbatim>\<open>a\<close> and \<^verbatim>\<open>e\<close> to 430 below the place where \<^verbatim>\<open>c\<close> was: the
  pair \<^verbatim>\<open>c\<close>, \<^verbatim>\<open>e\<close> overlapped before the pass and is 300 apart after it.
\<close>

theorem overlap_distance_counterexample:
  "calculateOptimalBranchPositions (conversationOf
       [branchAt ''main'' None \<lparr>px = 0, py = 0\<rparr>,
        branchAt ''a'' (Some ''main'') \<lparr>px = 0, py = 0\<rparr>,
        branchAt ''b'' (Some ''main'') \<lparr>px = 0, py = 0\<rparr>,
        branchAt ''c'' (Some ''main'') \<lparr>px = 0, py = 0\<rparr>,
        branchAt ''d'' (Some ''main'') \<lparr>px = 0, py = 0\<rparr>,
        branchAt ''e'' (Some ''main'') \<lparr>px = 0, py = 0\<rparr>] \<lparr>px = 800, py = 400\<rparr>)
     = Inr (resolveOverlaps
         [(''main'', \<lparr>px = 800, py = 400\<rparr>), (''a'', \<lparr>px = 1250, py = 100\<rparr>),
          (''b'', \<lparr>px = 350, py = 250\<rparr>), (''c'', \<lparr>px = 1250, py = 400\<rparr>),
          (''d'', \<lparr>px = 350, py = 550\<rparr>), (''e'', \<lparr>px = 1250, py = 700\<rparr>)])
   \<and> overlapping \<lparr>px = 1250, py = 400\<rparr> \<lparr>px = 1250, py = 700\<rparr>
   \<and> resolveOverlaps
         [(''main'', \<lparr>px = 800, py = 400\<rparr>), (''a'', \<lparr>px = 1250, py = 100\<rparr>),
          (''b'', \<lparr>px = 350, py = 250\<rparr>), (''c'', \<lparr>px = 1250, py = 400\<rparr>),
          (''d'', \<lparr>px = 350, py = 550\<rparr>), (''e'', \<lparr>px = 1250, py = 700\<rparr>)]
       = [(''main'', \<lparr>px = 800, py = 400\<rparr>), (''a'', \<lparr>px = 1250, py = 100\<rparr>),
          (''b'', \<lparr>px = 350, py = 250\<rparr>), (''c'', \<lparr>px = 1250, py = 530\<rparr>),
          (''d'', \<lparr>px = 350, py = 680\<rparr>), (''e'', \<lparr>px = 1250, py = 830\<rparr>)]
   \<and> \<bar>(830::real) - 530\<bar> < BLOCK_HEIGHT + MIN_SPACING"
  by (simp add: layout_eval)

text \<open>
  Claim C4, amended. In the single pass over positions with distinct keys, every block keeps
  its x-coordinate; a block that overlaps none of the blocks enumerated before it is not moved;
  a block that does ends \<open>BLOCK_HEIGHT + MIN_SPACING = 430\<close> below (if its y was at least that
  block's y) or above (otherwise) the position before the pass of the last earlier block it
  overlaps. Hence a pair that overlapped before the pass is exactly 430 apart vertically after
  it when the first of the two overlaps no earlier block and no block between the two overlaps
  the second; for other overlapping pairs the pass promises no distance.
\<close>

theorem overlap_pass:
  assumes d: "distinct (map fst positions)"
  shows "(\<forall>A k p C. ownEntries positions = A @ (k, p) # C \<longrightarrow>
            map_of (resolveOverlaps positions) k = Some (settled (map snd A) p)
            \<and> px (settled (map snd A) p) = px p
            \<and> ((\<forall>q\<in>set (map snd A). \<not> overlapping q p) \<longrightarrow> settled (map snd A) p = p))
       \<and> (\<forall>A k1 p1 B k2 p2 C.
            ownEntries positions = A @ (k1, p1) # B @ (k2, p2) # C \<and> overlapping p1 p2
            \<and> (\<forall>q\<in>set (map snd A). \<not> overlapping q p1)
            \<and> (\<forall>q\<in>set (map snd B). \<not> overlapping q p2) \<longrightarrow>
            (\<exists>r2. map_of (resolveOverlaps positions) k1 = Some p1
                 \<and> map_of (resolveOverlaps positions) k2 = Some r2
                 \<and> px r2 = px p2
                 \<and> py r2 = (if py p2 \<ge> py p1 then py p1 + 430 else py p1 - 430)
                 \<and> \<bar>py r2 - py p1\<bar> = BLOCK_HEIGHT + MIN_SPACING))"
proof (intro conjI allI impI)
  fix A k p C
  assume e: "ownEntries positions = A @ (k, p) # C"
  show "map_of (resolveOverlaps positions) k = Some (settled (map snd A) p)"
    using resolveOverlaps_at[OF d e] .
  show "px (settled (map snd A) p) = px p"
    by (rule settled_px)
  show "settled (map snd A) p = p" if "\<forall>q\<in>set (map snd A). \<not> overlapping q p"
    using that by (rule settled_none)
next
  fix A k1 p1 B k2 p2 C
  assume a: "ownEntries positions = A @ (k1, p1) # B @ (k2, p2) # C \<and> overlapping p1 p2
            \<and> (\<forall>q\<in>set (map snd A). \<not> overlapping q p1)
            \<and> (\<forall>q\<in>set (map snd B). \<not> overlapping q p2)"
  then have e1: "ownEntries positions = A @ (k1, p1) # (B @ (k2, p2) # C)"
    and e2: "ownEntries positions = (A @ (k1, p1) # B) @ (k2, p2) # C"
    by simp_all
  have r1: "map_of (resolveOverlaps positions) k1 = Some p1"
    using resolveOverlaps_at[OF d e1] a by (simp add: settled_none)
  have s2: "settled (map snd (A @ (k1, p1) # B)) p2
              = p2\<lparr>py := (if py p2 \<ge> py p1 then py p1 + 430 else py p1 - 430)\<rparr>"
    using settled_last[of p1 p2 "map snd B" "map snd A"] a by simp
  have r2: "map_of (resolveOverlaps positions) k2
              = Some (p2\<lparr>py := (if py p2 \<ge> py p1 then py p1 + 430 else py p1 - 430)\<rparr>)"
    using resolveOverlaps_at[OF d e2] s2 by simp
  show "\<exists>r2. map_of (resolveOverlaps positions) k1 = Some p1
                 \<and> map_of (resolveOverlaps positions) k2 = Some r2
                 \<and> px r2 = px p2
                 \<and> py r2 = (if py p2 \<ge> py p1 then py p1 + 430 else py p1 - 430)
                 \<and> \<bar>py r2 - py p1\<bar> = BLOCK_HEIGHT + MIN_SPACING"
    using r1 r2 by (simp add: BLOCK_HEIGHT_def MIN_SPACING_def)
qed

text \<open>The amended claim on the pair \<^verbatim>\<open>a\<close>, \<^verbatim>\<open>c\<close> of the five children above.\<close>

theorem overlap_pass_witness:
  "map_of (resolveOverlaps
         [(''main'', \<lparr>px = 800, py = 400\<rparr>), (''a'', \<lparr>px = 1250, py = 100\<rparr>),
          (''b'', \<lparr>px = 350, py = 250\<rparr>), (''c'', \<lparr>px = 1250, py = 400\<rparr>),
          (''d'', \<lparr>px = 350, py = 550\<rparr>), (''e'', \<lparr>px = 1250, py = 700\<rparr>)]) ''a''
     = Some \<lparr>px = 1250, py = 100\<rparr>
   \<and> map_of (resolveOverlaps
         [(''main'', \<lparr>px = 800, py = 400\<rparr>), (''a'', \<lparr>px = 1250, py = 100\<rparr>),
          (''b'', \<lparr>px = 350, py = 250\<rparr>), (''c'', \<lparr>px = 1250, py = 400\<rparr>),
          (''d'', \<lparr>px = 350, py = 550\<rparr>), (''e'', \<lparr>px = 1250, py = 700\<rparr>)]) ''c''
     = Some \<lparr>px = 1250, py = 530\<rparr>"
proof -
  let ?before = "[(''main'', \<lparr>px = 800, py = 400\<rparr>), (''a'', \<lparr>px = 1250, py = 100\<rparr>),
          (''b'', \<lparr>px = 350, py = 250\<rparr>), (''c'', \<lparr>px = 1250, py = 400\<rparr>),
          (''d'', \<lparr>px = 350, py = 550\<rparr>), (''e'', \<lparr>px = 1250, py = 700\<rparr>)]"
  have h: "distinct (map fst ?before)"
    by simp
  have pre: "ownEntries ?before
       = [(''main'', \<lparr>px = 800, py = 400\<rparr>)] @ (''a'', \<lparr>px = 1250, py = 100\<rparr>)
           # [(''b'', \<lparr>px = 350, py = 250\<rparr>)] @ (''c'', \<lparr>px = 1250, py = 400\<rparr>)
           # [(''d'', \<lparr>px = 350, py = 550\<rparr>), (''e'', \<lparr>px = 1250, py = 700\<rparr>)]
     \<and> overlapping \<lparr>px = 1250, py = 100\<rparr> \<lparr>px = 1250, py = 400\<rparr>
     \<and> (\<forall>q\<in>set (map snd [(''main'', \<lparr>px = 800, py = 400\<rparr>)]).
            \<not> overlapping q \<lparr>px = 1250, py = 100\<rparr>)
     \<and> (\<forall>q\<in>set (map snd [(''b'', \<lparr>px = 350, py = 250\<rparr>)]).
            \<not> overlapping q \<lparr>px = 1250, py = 400\<rparr>)"
    by (simp add: layout_eval)
  from overlap_pass[OF h, THEN conjunct2, rule_format, OF pre]
  show ?thesis
    by auto
qed

section \<open>The layout and the order of enumeration\<close>

lemma forEachChild_same_children:
  assumes "\<And>c pos. positionBranch d cm c pos = positionBranch d cm' c pos"
  shows "forEachChild d cm pp sy r l cs idx pos = forEachChild d cm' pp sy r l cs idx pos"
proof (induction cs arbitrary: idx pos)
  case Nil
  show ?case by simp
next
  case (Cons c cs)
  show ?case
    by (simp add: Let_def assms Cons.IH split: sum.splits)
qed

lemma positionBranch_same_children:
  assumes "\<And>p. obj_get cm p = obj_get cm' p"
  shows "positionBranch d cm bid pos = positionBranch d cm' bid pos"
proof (induction d arbitrary: bid pos)
  case 0
  show ?case by simp
next
  case (Suc d)
  have "forEachChild d cm pp sy r l cs idx pos = forEachChild d cm' pp sy r l cs idx pos"
    for pp sy r l cs idx
    using forEachChild_same_children[of d cm cm'] Suc.IH by blast
  then show ?case
    by (simp add: Let_def assms split: property.splits)
qed

lemma inheritedParent_filter:
  "list_ex inheritedParent bs \<longleftrightarrow>
     (\<exists>p\<in>set protoNames. p \<noteq> [] \<and> filter (\<lambda>b. parentBranchId b = Some p) bs \<noteq> [])"
  by (auto simp: list_ex_iff inheritedParent_def filter_empty_conv split: option.splits)

text \<open>
  Claim C1, as stated, fails: the index of a child among its siblings, which decides its side
  and its height, is its place in the enumeration of the mapping. The same three branches,
  enumerated with \<^verbatim>\<open>a\<close> before \<^verbatim>\<open>b\<close> and with \<^verbatim>\<open>b\<close> before \<^verbatim>\<open>a\<close>, get different positions.
\<close>

theorem layout_order_counterexample:
  "calculateOptimalBranchPositions (conversationOf
       [branchAt ''main'' None \<lparr>px = 0, py = 0\<rparr>,
        branchAt ''a'' (Some ''main'') \<lparr>px = 0, py = 0\<rparr>,
        branchAt ''b'' (Some ''main'') \<lparr>px = 0, py = 0\<rparr>] \<lparr>px = 800, py = 400\<rparr>)
     = Inr [(''main'', \<lparr>px = 800, py = 400\<rparr>), (''a'', \<lparr>px = 1250, py = 285\<rparr>),
             (''b'', \<lparr>px = 350, py = 435\<rparr>)]
   \<and> calculateOptimalBranchPositions (conversationOf
       [branchAt ''main'' None \<lparr>px = 0, py = 0\<rparr>,
        branchAt ''b'' (Some ''main'') \<lparr>px = 0, py = 0\<rparr>,
        branchAt ''a'' (Some ''main'') \<lparr>px = 0, py = 0\<rparr>] \<lparr>px = 800, py = 400\<rparr>)
     = Inr [(''main'', \<lparr>px = 800, py = 400\<rparr>), (''b'', \<lparr>px = 1250, py = 285\<rparr>),
             (''a'', \<lparr>px = 350, py = 435\<rparr>)]"
  by (simp add: layout_eval)

text \<open>
  Claim C1, amended. The layout is a function of its input, and of the enumeration order it
  uses this much only: two mappings with the same \<^verbatim>\<open>canvasCenter\<close>, the same number of branches,
  the same root id and, under every parent id, the same children in the same order, get the same
  layout, however the branches that are not siblings are interleaved.
\<close>

theorem layout_determinism:
  assumes c: "canvasCenter conv1 = canvasCenter conv2"
    and n: "length (branchesOf conv1) = length (branchesOf conv2)"
    and r: "map_option b_id (find isRoot (branchesOf conv1))
              = map_option b_id (find isRoot (branchesOf conv2))"
    and ch: "\<forall>p. map b_id (filter (\<lambda>b. parentBranchId b = Some p) (branchesOf conv1))
                = map b_id (filter (\<lambda>b. parentBranchId b = Some p) (branchesOf conv2))"
  shows "calculateOptimalBranchPositions conv1 = calculateOptimalBranchPositions conv2"
proof (cases "list_ex inheritedParent (branchesOf conv1)")
  case True
  have e: "filter (\<lambda>b. parentBranchId b = Some p) (branchesOf conv1) = [] \<longleftrightarrow>
           filter (\<lambda>b. parentBranchId b = Some p) (branchesOf conv2) = []" for p
    using ch by (metis map_is_Nil_conv)
  from True have "list_ex inheritedParent (branchesOf conv2)"
    unfolding inheritedParent_filter e .
  with True show ?thesis
    by (simp add: forEachBranch_throws calculate_throws)
next
  case False
  have e: "filter (\<lambda>b. parentBranchId b = Some p) (branchesOf conv1) = [] \<longleftrightarrow>
           filter (\<lambda>b. parentBranchId b = Some p) (branchesOf conv2) = []" for p
    using ch by (metis map_is_Nil_conv)
  from False have False2: "\<not> list_ex inheritedParent (branchesOf conv2)"
    unfolding inheritedParent_filter e .
  from forEachBranch_returns[OF False] obtain cm1 where
    cm1: "forEachBranch (branchesOf conv1) [] = Inr cm1"
    by blast
  from forEachBranch_returns[OF False2] obtain cm2 where
    cm2: "forEachBranch (branchesOf conv2) [] = Inr cm2"
    by blast
  have "childrenOf cm1 p = childrenOf cm2 p" for p
    using ch
    by (cases "p = []")
       (simp_all add: forEachBranch_childrenOf[OF cm1] forEachBranch_childrenOf[OF cm2]
          childrenOf_empty)
  then have same: "obj_get cm1 p = obj_get cm2 p" for p
    by (simp add: childrenMap_get[OF cm1] childrenMap_get[OF cm2])
  show ?thesis
  proof (cases "find isRoot (branchesOf conv1)")
    case None
    with r have "find isRoot (branchesOf conv2) = None" by simp
    with None show ?thesis by (simp add: calculate_unfold[OF cm1] calculate_unfold[OF cm2])
  next
    case (Some r1)
    with r obtain r2 where r2: "find isRoot (branchesOf conv2) = Some r2" "b_id r2 = b_id r1"
      by (cases "find isRoot (branchesOf conv2)") auto
    show ?thesis
      using Some r2 c n positionBranch_same_children[of cm1 cm2, OF same]
      by (simp add: calculate_unfold[OF cm1] calculate_unfold[OF cm2])
  qed
qed

text \<open>
  The amended claim on two enumerations of one tree, with the grandchildren after both children
  and with each grandchild after its parent.
\<close>

theorem layout_determinism_witness:
  "calculateOptimalBranchPositions (conversationOf
       [branchAt ''main'' None \<lparr>px = 0, py = 0\<rparr>,
        branchAt ''a'' (Some ''main'') \<lparr>px = 0, py = 0\<rparr>,
        branchAt ''b'' (Some ''main'') \<lparr>px = 0, py = 0\<rparr>,
        branchAt ''a1'' (Some ''a'') \<lparr>px = 0, py = 0\<rparr>,
        branchAt ''b1'' (Some ''b'') \<lparr>px = 0, py = 0\<rparr>] \<lparr>px = 800, py = 400\<rparr>)
   = calculateOptimalBranchPositions (conversationOf
       [branchAt ''main'' None \<lparr>px = 0, py = 0\<rparr>,
        branchAt ''a'' (Some ''main'') \<lparr>px = 0, py = 0\<rparr>,
        branchAt ''a1'' (Some ''a'') \<lparr>px = 0, py = 0\<rparr>,
        branchAt ''b'' (Some ''main'') \<lparr>px = 0, py = 0\<rparr>,
        branchAt ''b1'' (Some ''b'') \<lparr>px = 0, py = 0\<rparr>] \<lparr>px = 800, py = 400\<rparr>)"
proof -
  let ?c1 = "conversationOf
       [branchAt ''main'' None \<lparr>px = 0, py = 0\<rparr>,
        branchAt ''a'' (Some ''main'') \<lparr>px = 0, py = 0\<rparr>,
        branchAt ''b'' (Some ''main'') \<lparr>px = 0, py = 0\<rparr>,
        branchAt ''a1'' (Some ''a'') \<lparr>px = 0, py = 0\<rparr>,
        branchAt ''b1'' (Some ''b'') \<lparr>px = 0, py = 0\<rparr>] \<lparr>px = 800, py = 400\<rparr>"
  let ?c2 = "conversationOf
       [branchAt ''main'' None \<lparr>px = 0, py = 0\<rparr>,
        branchAt ''a'' (Some ''main'') \<lparr>px = 0, py = 0\<rparr>,
        branchAt ''a1'' (Some ''a'') \<lparr>px = 0, py = 0\<rparr>,
        branchAt ''b'' (Some ''main'') \<lparr>px = 0, py = 0\<rparr>,
        branchAt ''b1'' (Some ''b'') \<lparr>px = 0, py = 0\<rparr>] \<lparr>px = 800, py = 400\<rparr>"
  have h1: "canvasCenter ?c1 = canvasCenter ?c2"
    by (simp add: conversationOf_def)
  have h2: "length (branchesOf ?c1) = length (branchesOf ?c2)"
    by (simp add: layout_eval)
  have h3: "map_option b_id (find isRoot (branchesOf ?c1))
              = map_option b_id (find isRoot (branchesOf ?c2))"
    by (simp add: layout_eval)
  have h4: "\<forall>p. map b_id (filter (\<lambda>b. parentBranchId b = Some p) (branchesOf ?c1))
                = map b_id (filter (\<lambda>b. parentBranchId b = Some p) (branchesOf ?c2))"
    by (simp add: layout_eval)
  show ?thesis
    using layout_determinism[OF h1 h2 h3 h4] .
qed

section \<open>Creating a branch\<close>

text \<open>
  When the active branch exists and has a message, \<^verbatim>\<open>handleCreateBranch\<close> adds the new
  branch, calls the layout and, if that call returns, commits the conversation with every branch
  at the position the layout gives it. The call returns when the branches are stored under
  their own ids and no id or parent id is a name that every object inherits.
\<close>

lemma map_of_map_entries:
  "map_of (map (\<lambda>(k, v). (k, f k v)) xs) k = map_option (f k) (map_of xs k)"
  by (induction xs) auto

lemma set_obj_set_subset: "set (obj_set k v kvs) \<subseteq> insert (k, v) (set kvs)"
  by (induction kvs) (auto split: if_splits)

lemma wellKeyed_obj_set:
  assumes "wellKeyed kvs" "b_id b = k"
  shows "wellKeyed (obj_set k b kvs)"
proof -
  from assms(1) have "distinct (map fst (obj_set k b kvs))"
    by (simp add: wellKeyed_def distinct_obj_set)
  moreover have "\<forall>kv\<in>set (obj_set k b kvs). b_id (snd kv) = fst kv"
    using assms set_obj_set_subset[of k b kvs]
    by (auto simp: wellKeyed_def list_all_iff)
  ultimately show ?thesis
    by (simp add: wellKeyed_def list_all_iff)
qed

lemma wellKeyed_ownEntries: "wellKeyed kvs \<Longrightarrow> wellKeyed (ownEntries kvs)"
  by (simp add: wellKeyed_def list_all_iff distinct_ownEntries set_ownEntries)

lemma wellKeyed_distinct_ids:
  assumes "wellKeyed kvs"
  shows "distinct (map b_id (map snd (ownEntries kvs)))"
proof -
  from assms have d: "distinct (map fst kvs)" and a: "\<forall>kv\<in>set kvs. b_id (snd kv) = fst kv"
    by (simp_all add: wellKeyed_def list_all_iff)
  from a have "map b_id (map snd (ownEntries kvs)) = map fst (ownEntries kvs)"
    by (simp add: set_ownEntries)
  with distinct_ownEntries[OF d] show ?thesis by (simp only:)
qed

lemma branch_prefix_plain: "''branch-'' @ s \<notin> set protoNames"
  by (simp add: protoNames_def)

lemma handleCreateBranch_unfold:
  assumes ac: "map_of (conversations st) (activeConversationId st) = Some ac"
    and ab: "map_of (branches ac) (activeBranchId ac) = Some ab"
    and ms: "messages ab \<noteq> []"
  shows "handleCreateBranch now st =
           (case calculateOptimalBranchPositions (withCreatedBranch now ab ac) of
              Inl e \<Rightarrow> Inl e
            | Inr layout \<Rightarrow>
                if list_ex (\<lambda>(k, branch). k = ''__proto__'' \<or> obj_get layout k = Inherited)
                     (ownEntries (branches (withCreatedBranch now ab ac)))
                then Inl Unmodelled
                else
                  Inr (st\<lparr>conversations :=
                     obj_set (activeConversationId st)
                       ((withCreatedBranch now ab ac)
                          \<lparr>branches :=
                             map (\<lambda>(k, branch).
                                    (k, branch\<lparr>position :=
                                          (case obj_get layout k of Own p \<Rightarrow> p
                                           | _ \<Rightarrow> position branch)\<rparr>))
                               (ownEntries (branches (withCreatedBranch now ab ac)))\<rparr>)
                       (ownEntries (conversations st)),
                   highlightedMessageId := None\<rparr>))"
  using ac ab ms
  by (simp add: handleCreateBranch_def obj_get_def Let_def inheritedCopy_def createdBranch_def
      withCreatedBranch_def split: sum.splits)

lemma handleCreateBranch_returns:
  assumes ac: "map_of (conversations st) (activeConversationId st) = Some ac"
    and ab: "map_of (branches ac) (activeBranchId ac) = Some ab"
    and ms: "messages ab \<noteq> []"
    and wk: "wellKeyed (branches ac)"
    and pl: "plainIds (branchesOf ac)" "plainParents (branchesOf ac)"
  shows "\<exists>st'. handleCreateBranch now st = Inr st'"
proof -
  let ?uc = "withCreatedBranch now ab ac"
  have wk': "wellKeyed (branches ?uc)"
    using wellKeyed_obj_set[OF wellKeyed_ownEntries[OF wk], of "createdBranch now ab"]
    by (simp add: withCreatedBranch_def createdBranch_def)
  then have d: "distinct (map b_id (branchesOf ?uc))"
    unfolding branchesOf_def by (rule wellKeyed_distinct_ids)
  from ab have "(activeBranchId ac, ab) \<in> set (branches ac)"
    by (rule map_of_SomeD)
  then have abm: "ab \<in> set (branchesOf ac)"
    by (force simp: branchesOf_def set_ownEntries)
  have sub: "set (branchesOf ?uc) \<subseteq> insert (createdBranch now ab) (set (branchesOf ac))"
    using set_obj_set_subset[of "''branch-'' @ decimal now" "createdBranch now ab"
        "ownEntries (branches ac)"]
    by (auto simp: branchesOf_def withCreatedBranch_def set_ownEntries)
  have pc: "b_id (createdBranch now ab) \<notin> set protoNames"
    using branch_prefix_plain[of "decimal now"] by (simp add: createdBranch_def)
  have pp: "b_id ab \<notin> set protoNames"
    using pl(1) abm by (auto simp: plainIds_def list_all_iff)
  have pl': "plainIds (branchesOf ?uc)"
    using pl(1) sub pc by (auto simp: plainIds_def list_all_iff)
  have pp': "plainParents (branchesOf ?uc)"
    using pl(2) sub pp by (auto simp: plainParents_def list_all_iff createdBranch_def)
  from calculate_total[OF d pl' pp'] obtain layout where
    lay: "calculateOptimalBranchPositions ?uc = Inr layout"
    by blast
  have "k \<notin> set protoNames" if "(k, b) \<in> set (ownEntries (branches ?uc))" for k b
  proof -
    from that wk' have "b_id b = k"
      by (auto simp: wellKeyed_def list_all_iff set_ownEntries)
    moreover from that have "b \<in> set (branchesOf ?uc)"
      by (force simp: branchesOf_def)
    ultimately show ?thesis
      using pl' by (auto simp: plainIds_def list_all_iff)
  qed
  then have "\<not> list_ex (\<lambda>(k, branch). k = ''__proto__'' \<or> obj_get layout k = Inherited)
                 (ownEntries (branches ?uc))"
    using proto_in_protoNames by (auto simp: list_ex_iff obj_get_Inherited)
  with lay show ?thesis
    by (simp add: handleCreateBranch_unfold[OF ac ab ms])
qed

lemma handleCreateBranch_returned:
  assumes ac: "map_of (conversations st) (activeConversationId st) = Some ac"
    and ab: "map_of (branches ac) (activeBranchId ac) = Some ab"
    and ms: "messages ab \<noteq> []"
    and dk: "distinct (map fst (branches ac))"
    and run: "handleCreateBranch now st = Inr st'"
  shows "\<exists>conv' p. activeConversationOf st' = Some conv'
           \<and> activeBranchId conv' = ''branch-'' @ decimal now
           \<and> map_of (branches conv') (''branch-'' @ decimal now)
               = Some ((createdBranch now ab)\<lparr>position := p\<rparr>)"
proof -
  let ?uc = "withCreatedBranch now ab ac"
  from run obtain layout where
    lay: "calculateOptimalBranchPositions ?uc = Inr layout"
    by (auto simp: handleCreateBranch_unfold[OF ac ab ms] split: sum.splits)
  define conv' where "conv' = ?uc\<lparr>branches :=
       map (\<lambda>(k, branch). (k, branch\<lparr>position :=
            (case obj_get layout k of Own p \<Rightarrow> p | _ \<Rightarrow> position branch)\<rparr>))
         (ownEntries (branches ?uc))\<rparr>"
  have st': "st' = st\<lparr>conversations :=
                 obj_set (activeConversationId st) conv' (ownEntries (conversations st)),
               highlightedMessageId := None\<rparr>"
    using run by (simp add: handleCreateBranch_unfold[OF ac ab ms] lay conv'_def split: if_splits)
  have a: "activeConversationOf st' = Some conv'"
    by (simp add: activeConversationOf_def st' map_of_obj_set)
  have b: "activeBranchId conv' = ''branch-'' @ decimal now"
    by (simp add: conv'_def withCreatedBranch_def)
  have d: "distinct (map fst (branches ?uc))"
    using distinct_obj_set[OF distinct_ownEntries[OF dk]]
    by (simp add: withCreatedBranch_def)
  have "map_of (branches conv') (''branch-'' @ decimal now) =
          map_option (\<lambda>b. b\<lparr>position := (case obj_get layout (''branch-'' @ decimal now) of
                                             Own p \<Rightarrow> p | _ \<Rightarrow> position b)\<rparr>)
            (map_of (branches ?uc) (''branch-'' @ decimal now))"
    using map_of_ownEntries[OF d]
    by (simp add: conv'_def map_of_map_entries)
  also have "map_of (branches ?uc) (''branch-'' @ decimal now) = Some (createdBranch now ab)"
    by (simp add: withCreatedBranch_def map_of_obj_set)
  finally have c: "map_of (branches conv') (''branch-'' @ decimal now)
         = Some ((createdBranch now ab)\<lparr>position :=
              (case obj_get layout (''branch-'' @ decimal now) of
                 Own p \<Rightarrow> p | _ \<Rightarrow> position (createdBranch now ab))\<rparr>)"
    by simp
  show ?thesis
    using a b c by blast
qed

lemmas handler_eval = handleCreateBranch_def handleSwitchBranch_def projectIdeas_def
  welcomeConversation_def ideasConversation_def ideasMain_def
  activeConversationOf_def branchIn_def inheritedCopy_def decimal.simps wellKeyed_def

lemma last_filter_kept:
  assumes "xs \<noteq> []" "P (last xs)"
  shows "last (filter P xs) = last xs"
proof -
  from assms(1) have "xs = butlast xs @ [last xs]" by simp
  then have "filter P xs = filter P (butlast xs) @ filter P [last xs]"
    by (metis filter_append)
  with assms(2) show ?thesis by simp
qed

section \<open>The states of the component\<close>

text \<open>
  The messages of a branch are its inherited seed, if it has one, followed by messages that
  are not inherited: this holds in the initial state, a new conversation starts with a branch
  without messages, and the two handlers that write lists of messages keep it, as do the
  handlers that only change which branch is the active one.
\<close>

lemma seedFirst_append:
  assumes "seedFirst ms" "isInherited a \<noteq> Some True" "isInherited b \<noteq> Some True"
  shows "seedFirst (ms @ [a, b])"
  using assms by (cases ms) (simp_all add: seedFirst_def)

lemma seedFirstState_iff:
  "seedFirstState st \<longleftrightarrow>
     (\<forall>kc\<in>set (conversations st). \<forall>kb\<in>set (branches (snd kc)). seedFirst (messages (snd kb)))"
  by (simp add: seedFirstState_def list_all_iff)

lemma seedFirstState_initial: "seedFirstState projectIdeas"
  by (simp add: seedFirstState_def seedFirst_def projectIdeas_def welcomeConversation_def
      ideasConversation_def ideasMain_def)

lemma seedFirstState_commit:
  assumes inv: "seedFirstState st"
    and new: "\<forall>kb\<in>set (branches conv'). seedFirst (messages (snd kb))"
  shows "seedFirstState (st\<lparr>conversations := obj_set k conv' (ownEntries (conversations st)),
                             highlightedMessageId := h\<rparr>)"
proof -
  have "set (obj_set k conv' (ownEntries (conversations st)))
          \<subseteq> insert (k, conv') (set (conversations st))"
    using set_obj_set_subset[of k conv' "ownEntries (conversations st)"]
    by (simp add: set_ownEntries)
  with inv new show ?thesis
    unfolding seedFirstState_iff by fastforce
qed

lemma handleSendMessage_seedFirst:
  assumes inv: "seedFirstState st" and run: "handleSendMessage now later input st = Inr st'"
  shows "seedFirstState st'"
proof (cases "obj_get (conversations st) (activeConversationId st)")
  case (Own ac)
  show ?thesis
  proof (cases "obj_get (branches ac) (activeBranchId ac)")
    case ab: (Own ab)
    from obj_get_member[OF Own] obj_get_member[OF ab] inv
    have old: "\<forall>kb\<in>set (branches ac). seedFirst (messages (snd kb))"
      and sab: "seedFirst (messages ab)"
      unfolding seedFirstState_iff by force+
    define ab' where "ab' = ab
        \<lparr>messages := messages ab
           @ [\<lparr>m_id = decimal now, content = input, role = User, timestamp = now,
                isInherited = None\<rparr>,
              \<lparr>m_id = decimal (later + 1),
                content = ''This is a response to: '' @ [CHR 0x22] @ input @ [CHR 0x22],
                role = Assistant, timestamp = now, isInherited = None\<rparr>],
         summary := (if messages ab = [] then ''Discussion about: '' @ take 50 input @ ''...''
                     else summary ab)\<rparr>"
    define conv' where "conv' = ac
        \<lparr>lastMessage := input,
         branches := obj_set (b_id ab) ab' (ownEntries (branches ac))\<rparr>"
    have st': "st' = st\<lparr>conversations :=
                  obj_set (activeConversationId st) conv' (ownEntries (conversations st)),
                highlightedMessageId := None\<rparr>"
      using run by (simp add: handleSendMessage_def Own ab Let_def conv'_def ab'_def)
    have "seedFirst (messages ab')"
      unfolding ab'_def using seedFirst_append[OF sab] by simp
    moreover have "set (branches conv') \<subseteq> insert (b_id ab, ab') (set (branches ac))"
      using set_obj_set_subset[of "b_id ab" ab' "ownEntries (branches ac)"]
      by (simp add: conv'_def set_ownEntries)
    ultimately have "\<forall>kb\<in>set (branches conv'). seedFirst (messages (snd kb))"
      using old by auto
    then show ?thesis
      unfolding st' by (rule seedFirstState_commit[OF inv])
  qed (use run inv Own in \<open>simp_all add: handleSendMessage_def\<close>)
qed (use run inv in \<open>simp_all add: handleSendMessage_def\<close>)

lemma handleCreateBranch_seedFirst:
  assumes inv: "seedFirstState st" and run: "handleCreateBranch now st = Inr st'"
  shows "seedFirstState st'"
proof (cases "obj_get (conversations st) (activeConversationId st)")
  case (Own ac)
  show ?thesis
  proof (cases "obj_get (branches ac) (activeBranchId ac)")
    case ab: (Own ab)
    show ?thesis
    proof (cases "messages ab = []")
      case True
      with run inv Own ab show ?thesis
        by (simp add: handleCreateBranch_def)
    next
      case False
      have ac': "map_of (conversations st) (activeConversationId st) = Some ac"
        using Own by (simp add: obj_get_Own)
      have ab': "map_of (branches ac) (activeBranchId ac) = Some ab"
        using ab by (simp add: obj_get_Own)
      let ?uc = "withCreatedBranch now ab ac"
      from run obtain layout where
        st': "st' = st\<lparr>conversations :=
                 obj_set (activeConversationId st)
                   (?uc\<lparr>branches :=
                       map (\<lambda>(k, branch).
                              (k, branch\<lparr>position :=
                                    (case obj_get layout k of Own p \<Rightarrow> p
                                     | _ \<Rightarrow> position branch)\<rparr>))
                         (ownEntries (branches ?uc))\<rparr>)
                   (ownEntries (conversations st)),
               highlightedMessageId := None\<rparr>"
        by (auto simp: handleCreateBranch_unfold[OF ac' ab' False] split: sum.splits if_splits)
      from obj_get_member[OF Own] inv
      have old: "\<forall>kb\<in>set (branches ac). seedFirst (messages (snd kb))"
        unfolding seedFirstState_iff by force
      have "set (branches ?uc)
              \<subseteq> insert (''branch-'' @ decimal now, createdBranch now ab) (set (branches ac))"
        using set_obj_set_subset[of "''branch-'' @ decimal now" "createdBranch now ab"
            "ownEntries (branches ac)"]
        by (simp add: withCreatedBranch_def set_ownEntries)
      moreover have "seedFirst (messages (createdBranch now ab))"
        by (simp add: createdBranch_def seedFirst_def)
      ultimately have "\<forall>kb\<in>set (ownEntries (branches ?uc)). seedFirst (messages (snd kb))"
        using old by (auto simp: set_ownEntries)
      then have "\<forall>kb\<in>set (branches (?uc\<lparr>branches :=
                       map (\<lambda>(k, branch).
                              (k, branch\<lparr>position :=
                                    (case obj_get layout k of Own p \<Rightarrow> p
                                     | _ \<Rightarrow> position branch)\<rparr>))
                         (ownEntries (branches ?uc))\<rparr>)). seedFirst (messages (snd kb))"
        by auto
      then show ?thesis
        unfolding st' by (rule seedFirstState_commit[OF inv])
    qed
  qed (use run inv Own in \<open>simp_all add: handleCreateBranch_def\<close>)
qed (use run inv in \<open>simp_all add: handleCreateBranch_def\<close>)

lemma handleSwitchBranch_seedFirst:
  assumes inv: "seedFirstState st" and run: "handleSwitchBranch branchId st = Inr st'"
  shows "seedFirstState st'"
proof (cases "obj_get (conversations st) (activeConversationId st)")
  case (Own ac)
  from obj_get_member[OF Own] inv
  have old: "\<forall>kb\<in>set (branches (ac\<lparr>activeBranchId := branchId\<rparr>)). seedFirst (messages (snd kb))"
    unfolding seedFirstState_iff by force
  have sw: "seedFirstState (st\<lparr>conversations :=
                obj_set (activeConversationId st) (ac\<lparr>activeBranchId := branchId\<rparr>)
                  (ownEntries (conversations st)),
              highlightedMessageId := h\<rparr>)" for h
    by (rule seedFirstState_commit[OF inv old])
  from sw[of "highlightedMessageId st"] have sw0: "seedFirstState (st\<lparr>conversations :=
                obj_set (activeConversationId st) (ac\<lparr>activeBranchId := branchId\<rparr>)
                  (ownEntries (conversations st))\<rparr>)"
    by (simp add: seedFirstState_def)
  from sw[of None] have sw1: "seedFirstState (st\<lparr>conversations :=
                obj_set (activeConversationId st) (ac\<lparr>activeBranchId := branchId\<rparr>)
                  (ownEntries (conversations st)),
              highlightedMessageId := None\<rparr>)" .
  from run show ?thesis
    using sw0 sw1
    by (auto simp: handleSwitchBranch_def Own Let_def split: property.splits option.splits if_splits)
qed (use run inv in \<open>simp_all add: handleSwitchBranch_def\<close>)

lemma seed_is_most_recent:
  assumes en: "list_ex (\<lambda>m. isInherited m \<noteq> Some True) ms" and sf: "seedFirst ms"
  shows "mostRecentNonInherited ms = Some (last ms)"
proof -
  from en have ne: "ms \<noteq> []" by auto
  have own: "isInherited (last ms) \<noteq> Some True"
  proof (cases "tl ms = []")
    case True
    with ne have "set ms = {last ms}"
      by (cases ms) simp_all
    with en show ?thesis
      by (auto simp: list_ex_iff)
  next
    case False
    with ne have "last ms \<in> set (tl ms)"
      by (metis last_in_set last_tl)
    with sf show ?thesis
      by (simp add: seedFirst_def list_all_iff)
  qed
  from ne own have "last ms \<in> set ms" by simp
  with own have "filter (\<lambda>m. isInherited m \<noteq> Some True) ms \<noteq> []"
    by (auto simp: filter_empty_conv)
  moreover have "last (filter (\<lambda>m. isInherited m \<noteq> Some True) ms) = last ms"
    using own ne last_filter_kept[of ms "\<lambda>m. isInherited m \<noteq> Some True"] by simp
  ultimately show ?thesis
    by (simp add: mostRecentNonInherited_def Let_def)
qed

text \<open>
  In every state of the component the conversations have distinct keys, every conversation stores
  its branches under their own ids, these ids and the parent ids are \<^verbatim>\<open>main\<close> or \<^verbatim>\<open>branch-\<close>
  followed by a number, none of them a name that an object inherits, and only the first message
  of a branch may be inherited.
\<close>

lemma keyedConversation_cong:
  "branches c' = branches c \<Longrightarrow> keyedConversation c' = keyedConversation c"
  by (simp add: keyedConversation_def branchesOf_def)

lemma keyed_obj_set:
  assumes k: "keyedConversation c"
    and b: "b_id b = i" "i \<notin> set protoNames"
      "case parentBranchId b of None \<Rightarrow> True | Some p \<Rightarrow> p \<notin> set protoNames"
    and c': "branches c' = obj_set i b (ownEntries (branches c))"
  shows "keyedConversation c'"
proof -
  from k have wk: "wellKeyed (branches c)" and pl: "plainIds (branchesOf c)"
    and pp: "plainParents (branchesOf c)"
    by (simp_all add: keyedConversation_def)
  have "wellKeyed (branches c')"
    unfolding c' using wellKeyed_obj_set[OF wellKeyed_ownEntries[OF wk] b(1)] .
  moreover have sub: "set (branchesOf c') \<subseteq> insert b (set (branchesOf c))"
    using set_obj_set_subset[of i b "ownEntries (branches c)"]
    by (auto simp: branchesOf_def c' set_ownEntries)
  from sub pl b(1,2) have "plainIds (branchesOf c')"
    by (auto simp: plainIds_def list_all_iff)
  moreover from sub pp b(3) have "plainParents (branchesOf c')"
    by (auto simp: plainParents_def list_all_iff)
  ultimately show ?thesis
    by (simp add: keyedConversation_def)
qed

lemma keyed_positions:
  assumes k: "keyedConversation c"
    and c': "branches c' = map (\<lambda>(i, br). (i, br\<lparr>position := f i br\<rparr>)) (ownEntries (branches c))"
  shows "keyedConversation c'"
proof -
  from k have wk: "wellKeyed (ownEntries (branches c))" and pl: "plainIds (branchesOf c)"
    and pp: "plainParents (branchesOf c)"
    by (simp_all add: keyedConversation_def wellKeyed_ownEntries)
  have keys: "map fst (branches c') = map fst (ownEntries (branches c))"
    by (simp add: c' comp_def case_prod_unfold)
  have "wellKeyed (branches c')"
    using wk unfolding wellKeyed_def keys by (auto simp: c' list_all_iff)
  moreover have "\<exists>b0\<in>set (branchesOf c). b_id b = b_id b0 \<and> parentBranchId b = parentBranchId b0"
    if "b \<in> set (branchesOf c')" for b
    using that by (force simp: branchesOf_def c' set_ownEntries)
  then have "plainIds (branchesOf c')" "plainParents (branchesOf c')"
    using pl pp by (fastforce simp: plainIds_def plainParents_def list_all_iff)+
  ultimately show ?thesis
    by (simp add: keyedConversation_def)
qed

lemma keyedState_commit:
  assumes inv: "keyedState st" and new: "keyedConversation conv'"
    and st': "conversations st' = obj_set k conv' (ownEntries (conversations st))"
  shows "keyedState st'"
proof -
  from inv have d: "distinct (map fst (conversations st))"
    and a: "\<forall>kc\<in>set (conversations st). keyedConversation (snd kc)"
    by (simp_all add: keyedState_def list_all_iff)
  have "distinct (map fst (conversations st'))"
    unfolding st' using distinct_obj_set[OF distinct_ownEntries[OF d]] .
  moreover have "set (conversations st') \<subseteq> insert (k, conv') (set (conversations st))"
    using set_obj_set_subset[of k conv' "ownEntries (conversations st)"]
    by (simp add: st' set_ownEntries)
  with a new have "\<forall>kc\<in>set (conversations st'). keyedConversation (snd kc)"
    by fastforce
  ultimately show ?thesis
    by (simp add: keyedState_def list_all_iff)
qed

lemma keyedState_member:
  assumes "keyedState st" "map_of (conversations st) k = Some c"
  shows "keyedConversation c"
  using assms map_of_SomeD[OF assms(2)] by (fastforce simp: keyedState_def list_all_iff)

lemma keyed_withCreatedBranch:
  assumes k: "keyedConversation ac" and ab: "map_of (branches ac) i = Some ab"
  shows "keyedConversation (withCreatedBranch now ab ac)"
proof (rule keyed_obj_set[OF k])
  show "b_id (createdBranch now ab) = ''branch-'' @ decimal now"
    by (simp add: createdBranch_def)
  show "''branch-'' @ decimal now \<notin> set protoNames"
    by (rule branch_prefix_plain)
  from ab have "(i, ab) \<in> set (branches ac)"
    by (rule map_of_SomeD)
  then have "ab \<in> set (branchesOf ac)"
    by (force simp: branchesOf_def set_ownEntries)
  with k have "b_id ab \<notin> set protoNames"
    by (auto simp: keyedConversation_def plainIds_def list_all_iff)
  then show "case parentBranchId (createdBranch now ab) of None \<Rightarrow> True
             | Some p \<Rightarrow> p \<notin> set protoNames"
    by (simp add: createdBranch_def)
  show "branches (withCreatedBranch now ab ac)
          = obj_set (''branch-'' @ decimal now) (createdBranch now ab) (ownEntries (branches ac))"
    by (simp add: withCreatedBranch_def)
qed

lemma handleCreateBranch_keyed:
  assumes inv: "keyedState st" and run: "handleCreateBranch now st = Inr st'"
  shows "keyedState st'"
proof (cases "obj_get (conversations st) (activeConversationId st)")
  case (Own ac)
  then have ac: "map_of (conversations st) (activeConversationId st) = Some ac"
    by (simp add: obj_get_Own)
  show ?thesis
  proof (cases "obj_get (branches ac) (activeBranchId ac)")
    case o: (Own ab)
    then have ab: "map_of (branches ac) (activeBranchId ac) = Some ab"
      by (simp add: obj_get_Own)
    show ?thesis
    proof (cases "messages ab = []")
      case True
      with run inv Own o show ?thesis
        by (simp add: handleCreateBranch_def)
    next
      case False
      let ?uc = "withCreatedBranch now ab ac"
      from run obtain layout where
        st': "st' = st\<lparr>conversations :=
                 obj_set (activeConversationId st)
                   (?uc\<lparr>branches :=
                       map (\<lambda>(k, branch).
                              (k, branch\<lparr>position :=
                                    (case obj_get layout k of Own p \<Rightarrow> p
                                     | _ \<Rightarrow> position branch)\<rparr>))
                         (ownEntries (branches ?uc))\<rparr>)
                   (ownEntries (conversations st)),
               highlightedMessageId := None\<rparr>"
        by (auto simp: handleCreateBranch_unfold[OF ac ab False] split: sum.splits if_splits)
      have "keyedConversation ?uc"
        using keyed_withCreatedBranch[OF keyedState_member[OF inv ac] ab] .
      then have "keyedConversation (?uc\<lparr>branches :=
                       map (\<lambda>(k, branch).
                              (k, branch\<lparr>position :=
                                    (case obj_get layout k of Own p \<Rightarrow> p
                                     | _ \<Rightarrow> position branch)\<rparr>))
                         (ownEntries (branches ?uc))\<rparr>)"
        by (rule keyed_positions[where f = "\<lambda>k branch. case obj_get layout k of Own p \<Rightarrow> p
                                                         | _ \<Rightarrow> position branch"]) simp
      then show ?thesis
        by (rule keyedState_commit[OF inv]) (simp add: st')
    qed
  qed (use run inv Own in \<open>simp_all add: handleCreateBranch_def\<close>)
qed (use run inv in \<open>simp_all add: handleCreateBranch_def\<close>)

lemma handleSendMessage_keyed:
  assumes inv: "keyedState st" and run: "handleSendMessage now later input st = Inr st'"
  shows "keyedState st'"
proof (cases "obj_get (conversations st) (activeConversationId st)")
  case (Own ac)
  then have ac: "map_of (conversations st) (activeConversationId st) = Some ac"
    by (simp add: obj_get_Own)
  have k: "keyedConversation ac"
    using keyedState_member[OF inv ac] .
  show ?thesis
  proof (cases "obj_get (branches ac) (activeBranchId ac)")
    case o: (Own ab)
    from obj_get_member[OF o] have "ab \<in> set (branchesOf ac)"
      by (force simp: branchesOf_def set_ownEntries)
    with k have p: "b_id ab \<notin> set protoNames"
      "case parentBranchId ab of None \<Rightarrow> True | Some p \<Rightarrow> p \<notin> set protoNames"
      by (auto simp: keyedConversation_def plainIds_def plainParents_def list_all_iff)
    define ab' where "ab' = ab
        \<lparr>messages := messages ab
           @ [\<lparr>m_id = decimal now, content = input, role = User, timestamp = now,
                isInherited = None\<rparr>,
              \<lparr>m_id = decimal (later + 1),
                content = ''This is a response to: '' @ [CHR 0x22] @ input @ [CHR 0x22],
                role = Assistant, timestamp = now, isInherited = None\<rparr>],
         summary := (if messages ab = [] then ''Discussion about: '' @ take 50 input @ ''...''
                     else summary ab)\<rparr>"
    define conv' where "conv' = ac
        \<lparr>lastMessage := input,
         branches := obj_set (b_id ab) ab' (ownEntries (branches ac))\<rparr>"
    have ab': "b_id ab' = b_id ab" "parentBranchId ab' = parentBranchId ab"
      by (simp_all add: ab'_def)
    have conv': "branches conv' = obj_set (b_id ab) ab' (ownEntries (branches ac))"
      by (simp add: conv'_def)
    have st': "conversations st'
                 = obj_set (activeConversationId st) conv' (ownEntries (conversations st))"
      using run by (auto simp: handleSendMessage_def Own o Let_def conv'_def ab'_def)
    have "keyedConversation conv'"
      by (rule keyed_obj_set[OF k ab'(1) p(1) _ conv']) (simp add: ab'(2) p(2))
    then show ?thesis
      using st' by (rule keyedState_commit[OF inv])
  qed (use run inv Own in \<open>simp_all add: handleSendMessage_def\<close>)
qed (use run inv in \<open>simp_all add: handleSendMessage_def\<close>)

lemma switched_keyed:
  assumes inv: "keyedState st"
    and ac: "obj_get (conversations st) (activeConversationId st) = Own ac"
    and st': "conversations st'
                = obj_set (activeConversationId st) (ac\<lparr>activeBranchId := branchId\<rparr>)
                    (ownEntries (conversations st))"
  shows "keyedState st'"
proof -
  have "keyedConversation ac"
    using keyedState_member[OF inv] ac by (simp add: obj_get_Own)
  then have "keyedConversation (ac\<lparr>activeBranchId := branchId\<rparr>)"
    by (simp add: keyedConversation_cong[of "ac\<lparr>activeBranchId := branchId\<rparr>" ac])
  then show ?thesis
    using st' by (rule keyedState_commit[OF inv])
qed

lemma handleSwitchBranch_keyed:
  assumes inv: "keyedState st" and run: "handleSwitchBranch branchId st = Inr st'"
  shows "keyedState st'"
proof (cases "obj_get (conversations st) (activeConversationId st)")
  case (Own ac)
  from run have "conversations st'
                = obj_set (activeConversationId st) (ac\<lparr>activeBranchId := branchId\<rparr>)
                    (ownEntries (conversations st))"
    by (auto simp: handleSwitchBranch_def Own Let_def
        split: property.splits option.splits if_splits)
  then show ?thesis
    by (rule switched_keyed[OF inv Own])
qed (use run inv in \<open>simp_all add: handleSwitchBranch_def\<close>)

lemma handleNavigateToMessage_keyed:
  assumes inv: "keyedState st" and run: "handleNavigateToMessage branchId messageId st = Inr st'"
  shows "keyedState st'"
proof (cases "obj_get (conversations st) (activeConversationId st)")
  case (Own ac)
  from run have "conversations st'
                = obj_set (activeConversationId st) (ac\<lparr>activeBranchId := branchId\<rparr>)
                    (ownEntries (conversations st))"
    by (auto simp: handleNavigateToMessage_def Own)
  then show ?thesis
    by (rule switched_keyed[OF inv Own])
qed (use run inv in \<open>simp_all add: handleNavigateToMessage_def\<close>)

lemma handleNavigateToMessage_seedFirst:
  assumes inv: "seedFirstState st" and run: "handleNavigateToMessage branchId messageId st = Inr st'"
  shows "seedFirstState st'"
proof (cases "obj_get (conversations st) (activeConversationId st)")
  case (Own ac)
  from obj_get_member[OF Own] inv
  have old: "\<forall>kb\<in>set (branches (ac\<lparr>activeBranchId := branchId\<rparr>)). seedFirst (messages (snd kb))"
    unfolding seedFirstState_iff by force
  from run have "st' = st\<lparr>conversations :=
                obj_set (activeConversationId st) (ac\<lparr>activeBranchId := branchId\<rparr>)
                  (ownEntries (conversations st)),
              highlightedMessageId := Some messageId\<rparr>"
    by (auto simp: handleNavigateToMessage_def Own)
  then show ?thesis
    using seedFirstState_commit[OF inv old] by simp
qed (use run inv in \<open>simp_all add: handleNavigateToMessage_def\<close>)

lemma handleNewConversation_ok:
  assumes "keyedState st" "seedFirstState st"
  shows "keyedState (handleNewConversation now st)"
    and "seedFirstState (handleNewConversation now st)"
proof -
  let ?new = "\<lparr>c_id = decimal now, title = ''New Conversation'',
             lastMessage = ''Start a new conversation'',
             branches =
               [(''main'',
                 \<lparr>b_id = ''main'', name = ''main'', parentBranchId = None,
                  parentMessageId = None, messages = [], summary = ''New conversation'',
                  position = \<lparr>px = 800, py = 400\<rparr>, level = 0\<rparr>)],
             activeBranchId = ''main'', canvasCenter = \<lparr>px = 800, py = 400\<rparr>\<rparr>"
  have c: "conversations (handleNewConversation now st)
             = obj_set (decimal now) ?new (ownEntries (conversations st))"
    by (simp add: handleNewConversation_def Let_def)
  have "keyedConversation ?new"
    by (simp add: keyedConversation_def wellKeyed_def plainIds_def plainParents_def
        branchesOf_def ownEntries_single protoNames_def)
  then show "keyedState (handleNewConversation now st)"
    using c by (rule keyedState_commit[OF assms(1)])
  have "set (conversations (handleNewConversation now st))
          \<subseteq> insert (decimal now, ?new) (set (conversations st))"
    using set_obj_set_subset[of "decimal now" ?new "ownEntries (conversations st)"]
    by (simp add: c set_ownEntries)
  with assms(2) show "seedFirstState (handleNewConversation now st)"
    unfolding seedFirstState_iff by (fastforce simp: seedFirst_def)
qed

lemma initialState_ok: "keyedState initialState" "seedFirstState initialState"
  by (simp_all add: keyedState_def keyedConversation_def wellKeyed_def plainIds_def
      plainParents_def branchesOf_def ownEntries_single protoNames_def seedFirstState_def
      seedFirst_def initialState_def welcomeConversation_def ideasConversation_def ideasMain_def)

lemma reachable_ok: "reachable st \<Longrightarrow> keyedState st \<and> seedFirstState st"
proof (induction rule: reachable.induct)
  case initial
  show ?case by (simp add: initialState_ok)
next
  case (newConversation st now)
  then show ?case by (simp add: handleNewConversation_ok)
next
  case (select st i)
  then show ?case
    by (simp add: onConversationSelect_def keyedState_def seedFirstState_def)
next
  case (send st now later input st')
  then show ?case
    using handleSendMessage_keyed handleSendMessage_seedFirst by blast
next
  case (create st now st')
  then show ?case
    using handleCreateBranch_keyed handleCreateBranch_seedFirst by blast
next
  case (switch st branchId st')
  then show ?case
    using handleSwitchBranch_keyed handleSwitchBranch_seedFirst by blast
next
  case (navigate st branchId messageId st')
  then show ?case
    using handleNavigateToMessage_keyed handleNavigateToMessage_seedFirst by blast
next
  case (timer st)
  then show ?case
    by (simp add: clearHighlight_def keyedState_def seedFirstState_def)
qed

text \<open>
  So whenever the button \<^verbatim>\<open>New Branch\<close> is enabled, the state meets what the statements on
  \<^verbatim>\<open>handleCreateBranch\<close> below ask of it.
\<close>

lemma reachable_create:
  assumes r: "reachable st" and b: "activeBranchOf st = Some ab"
  shows "\<exists>ac. map_of (conversations st) (activeConversationId st) = Some ac
           \<and> map_of (branches ac) (activeBranchId ac) = Some ab
           \<and> distinct (map fst (branches ac)) \<and> wellKeyed (branches ac)
           \<and> plainIds (branchesOf ac) \<and> plainParents (branchesOf ac)
           \<and> seedFirst (messages ab)"
proof -
  from b obtain ac where
    ac: "map_of (conversations st) (activeConversationId st) = Some ac" and
    ab: "map_of (branches ac) (activeBranchId ac) = Some ab"
    by (auto simp: activeBranchOf_def obj_get_Own split: property.splits)
  from reachable_ok[OF r] have k: "keyedState st" and s: "seedFirstState st"
    by simp_all
  from keyedState_member[OF k ac] have kc: "keyedConversation ac" .
  from map_of_SomeD[OF ac] map_of_SomeD[OF ab] s have "seedFirst (messages ab)"
    unfolding seedFirstState_iff by force
  with ac ab kc show ?thesis
    by (auto simp: keyedConversation_def wellKeyed_def)
qed

lemma ideasContinued_reached:
  "\<exists>st1. handleCreateBranch 1 projectIdeas = Inr st1
        \<and> handleSendMessage 2 2 ''more'' st1 = Inr ideasContinued"
  by (simp add: handler_eval layout_eval handleSendMessage_def ideasContinued_def
      seededBranch_def)

lemma reachable_projectIdeas: "reachable projectIdeas"
proof -
  have "projectIdeas = onConversationSelect ''2'' initialState"
    by (simp add: projectIdeas_def initialState_def onConversationSelect_def)
  then show ?thesis
    using reachable.select[OF reachable.initial, of "''2''"] by simp
qed

lemma reachable_ideasContinued: "reachable ideasContinued"
proof -
  from ideasContinued_reached obtain st1 where
    c: "handleCreateBranch 1 projectIdeas = Inr st1" and
    s: "handleSendMessage 2 2 ''more'' st1 = Inr ideasContinued"
    by blast
  have "canCreateBranch (activeBranchOf projectIdeas)"
    by (simp add: canCreateBranch_def activeBranchOf_def obj_get_def projectIdeas_def
        ideasConversation_def ideasMain_def)
  from reachable.create[OF reachable_projectIdeas this c] have "reachable st1" .
  from reachable.send[OF this s] show ?thesis .
qed

text \<open>
  In such a state the call of the layout inside \<^verbatim>\<open>handleCreateBranch\<close> returns, so a click
  on the enabled button completes.
\<close>

lemma reachable_create_completes:
  assumes r: "reachable st" and en: "canCreateBranch (activeBranchOf st)"
  shows "\<exists>st'. handleCreateBranch now st = Inr st'"
proof -
  from en obtain ab where b: "activeBranchOf st = Some ab"
    and ex: "list_ex (\<lambda>m. isInherited m \<noteq> Some True) (messages ab)"
    by (auto simp: canCreateBranch_def split: option.splits)
  from ex have ms: "messages ab \<noteq> []" by auto
  from reachable_create[OF r b] obtain ac where
    "map_of (conversations st) (activeConversationId st) = Some ac"
    "map_of (branches ac) (activeBranchId ac) = Some ab"
    "wellKeyed (branches ac)" "plainIds (branchesOf ac)" "plainParents (branchesOf ac)"
    by blast
  then show ?thesis
    using handleCreateBranch_returns[OF _ _ ms] by blast
qed

section \<open>The focus after creating a branch\<close>

text \<open>
  Claim C10. Take a state whose active branch exists and has at least one message. Every
  create-branch operation that completes leaves a state in which the \<^verbatim>\<open>activeBranchId\<close> of the
  conversation is the id \<^verbatim>\<open>branch-\<close>\<open>now\<close> of the newly created branch, and that id is a key of
  the updated mapping of branches: it resolves to the created branch, whose parent is the branch
  that was active. And the operation does complete when the branches are stored under their own
  ids and no id or parent id is the name of a property that every object inherits from
  \<^verbatim>\<open>Object.prototype\<close>; the ids \<^verbatim>\<open>main\<close> and \<^verbatim>\<open>branch-\<close>\<open>now\<close>, the only ones the program
  creates, are no such names, and every state that the component reaches is of this kind
  (\<open>reachable_create\<close>).
\<close>

theorem create_branch_switches_focus:
  assumes ac: "map_of (conversations st) (activeConversationId st) = Some ac"
    and ab: "map_of (branches ac) (activeBranchId ac) = Some ab"
    and ms: "messages ab \<noteq> []"
    and dk: "distinct (map fst (branches ac))"
  shows "(wellKeyed (branches ac) \<and> plainIds (branchesOf ac) \<and> plainParents (branchesOf ac) \<longrightarrow>
            (\<exists>st'. handleCreateBranch now st = Inr st'))
       \<and> (\<forall>st'. handleCreateBranch now st = Inr st' \<longrightarrow>
            (\<exists>conv' p. activeConversationOf st' = Some conv'
               \<and> activeBranchId conv' = ''branch-'' @ decimal now
               \<and> map_of (branches conv') (activeBranchId conv')
                   = Some ((createdBranch now ab)\<lparr>position := p\<rparr>)))"
proof (intro conjI impI allI)
  assume "wellKeyed (branches ac) \<and> plainIds (branchesOf ac) \<and> plainParents (branchesOf ac)"
  then show "\<exists>st'. handleCreateBranch now st = Inr st'"
    using handleCreateBranch_returns[OF ac ab ms] by blast
next
  fix st'
  assume "handleCreateBranch now st = Inr st'"
  from handleCreateBranch_returned[OF ac ab ms dk this]
  show "\<exists>conv' p. activeConversationOf st' = Some conv'
               \<and> activeBranchId conv' = ''branch-'' @ decimal now
               \<and> map_of (branches conv') (activeBranchId conv')
                   = Some ((createdBranch now ab)\<lparr>position := p\<rparr>)"
    by auto
qed

text \<open>The claim on the initial state, with \<^verbatim>\<open>Date.now() = 1\<close>.\<close>

theorem create_branch_switches_focus_witness:
  "\<exists>st' conv' p.
       handleCreateBranch 1 projectIdeas = Inr st'
     \<and> activeConversationOf st' = Some conv'
     \<and> activeBranchId conv' = ''branch-1''
     \<and> map_of (branches conv') ''branch-1'' = Some ((createdBranch 1 ideasMain)\<lparr>position := p\<rparr>)"
proof -
  have h1: "map_of (conversations projectIdeas) (activeConversationId projectIdeas)
              = Some ideasConversation"
    by (simp add: projectIdeas_def)
  have h2: "map_of (branches ideasConversation) (activeBranchId ideasConversation) = Some ideasMain"
    by (simp add: ideasConversation_def)
  have h3: "messages ideasMain \<noteq> []"
    by (simp add: ideasMain_def)
  have h4: "distinct (map fst (branches ideasConversation))"
    by (simp add: ideasConversation_def)
  have h5: "wellKeyed (branches ideasConversation) \<and> plainIds (branchesOf ideasConversation)
              \<and> plainParents (branchesOf ideasConversation)"
    by (simp add: wellKeyed_def ideasConversation_def ideasMain_def layout_eval)
  from create_branch_switches_focus[OF h1 h2 h3 h4, of 1] h5 obtain st' where
    r: "handleCreateBranch 1 projectIdeas = Inr st'"
    by auto
  with create_branch_switches_focus[OF h1 h2 h3 h4, of 1] show ?thesis
    by (auto simp: decimal.simps)
qed

section \<open>The seed of a new branch\<close>

text \<open>
  From a state whose active branch has a message that is not inherited and has inherited
  messages in the first place only, every create-branch operation that completes leaves the new
  branch with exactly one message, the inherited copy of the most recent message that is not
  inherited; and the operation completes when the branches are stored under their own ids and
  no id or parent id is a name that every object inherits.
\<close>

lemma handleCreateBranch_seed:
  assumes ac: "map_of (conversations st) (activeConversationId st) = Some ac"
    and ab: "map_of (branches ac) (activeBranchId ac) = Some ab"
    and en: "canCreateBranch (Some ab)"
    and sf: "seedFirst (messages ab)"
    and dk: "distinct (map fst (branches ac))"
  shows "\<exists>m. mostRecentNonInherited (messages ab) = Some m
           \<and> (wellKeyed (branches ac) \<and> plainIds (branchesOf ac) \<and> plainParents (branchesOf ac)
                \<longrightarrow> (\<exists>st'. handleCreateBranch now st = Inr st'))
           \<and> (\<forall>st'. handleCreateBranch now st = Inr st' \<longrightarrow>
                (\<exists>nb. branchIn st' (''branch-'' @ decimal now) = Some nb
                   \<and> messages nb
                       = [m\<lparr>m_id := ''inherited-'' @ m_id m, isInherited := Some True\<rparr>]))"
proof -
  from en have ex: "list_ex (\<lambda>m. isInherited m \<noteq> Some True) (messages ab)"
    by (simp add: canCreateBranch_def)
  then have ms: "messages ab \<noteq> []" by auto
  have m: "mostRecentNonInherited (messages ab) = Some (last (messages ab))"
    using seed_is_most_recent[OF ex sf] .
  have seeded: "\<exists>nb. branchIn st' (''branch-'' @ decimal now) = Some nb
                   \<and> messages nb = [(last (messages ab))\<lparr>m_id := ''inherited-''
                         @ m_id (last (messages ab)), isInherited := Some True\<rparr>]"
    if "handleCreateBranch now st = Inr st'" for st'
  proof -
    from handleCreateBranch_returned[OF ac ab ms dk that] obtain conv' p where
      "activeConversationOf st' = Some conv'"
      "map_of (branches conv') (''branch-'' @ decimal now)
         = Some ((createdBranch now ab)\<lparr>position := p\<rparr>)"
      by blast
    then show ?thesis
      by (simp add: branchIn_def createdBranch_def inheritedCopy_def)
  qed
  have "wellKeyed (branches ac) \<and> plainIds (branchesOf ac) \<and> plainParents (branchesOf ac)
          \<longrightarrow> (\<exists>st'. handleCreateBranch now st = Inr st')"
    using handleCreateBranch_returns[OF ac ab ms] by blast
  with m seeded show ?thesis
    by blast
qed

text \<open>
  Claim C8. A new branch is committed by \<^verbatim>\<open>handleCreateBranch\<close>, which only the button
  \<^verbatim>\<open>New Branch\<close> calls; the button is disabled unless the active branch has a message that is
  not inherited (\<^verbatim>\<open>canCreateBranch\<close>). In every state that the component reaches from its
  initial state in which the button is enabled, the active branch has a most recent message that
  is not inherited, the create-branch operation completes, and it leaves the new branch, stored
  under \<^verbatim>\<open>branch-\<close>\<open>now\<close>, with exactly one message: the copy of that message with the id
  prefixed by \<^verbatim>\<open>inherited-\<close> and \<^verbatim>\<open>isInherited = true\<close>.
\<close>

theorem new_branch_seed:
  assumes r: "reachable st"
    and b: "activeBranchOf st = Some ab"
    and en: "canCreateBranch (Some ab)"
  shows "\<exists>m st' nb.
           mostRecentNonInherited (messages ab) = Some m
         \<and> handleCreateBranch now st = Inr st'
         \<and> branchIn st' (''branch-'' @ decimal now) = Some nb
         \<and> messages nb = [m\<lparr>m_id := ''inherited-'' @ m_id m, isInherited := Some True\<rparr>]"
proof -
  from reachable_create[OF r b] obtain ac where
    ac: "map_of (conversations st) (activeConversationId st) = Some ac" and
    ab: "map_of (branches ac) (activeBranchId ac) = Some ab" and
    dk: "distinct (map fst (branches ac))" and
    k: "wellKeyed (branches ac)" "plainIds (branchesOf ac)" "plainParents (branchesOf ac)" and
    sf: "seedFirst (messages ab)"
    by blast
  from handleCreateBranch_seed[OF ac ab en sf dk, of now] k show ?thesis
    by blast
qed

text \<open>
  The claim on the initial state with \<^verbatim>\<open>Project Ideas\<close> selected, where the most recent message
  of \<^verbatim>\<open>main\<close> is message 2, and on the state reached from it by creating a branch and sending a
  message in that branch: the next branch is seeded with a copy of the answer, message 3, not of
  the seed of its parent.
\<close>

theorem new_branch_seed_witness:
  "reachable projectIdeas
   \<and> activeBranchOf projectIdeas = Some ideasMain
   \<and> canCreateBranch (Some ideasMain)
   \<and> (\<exists>st' nb.
       handleCreateBranch 1 projectIdeas = Inr st'
     \<and> branchIn st' ''branch-1'' = Some nb
     \<and> messages nb =
         [\<lparr>m_id = ''inherited-2'',
           content = ''Here are some exciting project ideas we could explore...'',
           role = Assistant, timestamp = 0, isInherited = Some True\<rparr>])
   \<and> reachable ideasContinued
   \<and> activeBranchOf ideasContinued = Some seededBranch
   \<and> canCreateBranch (Some seededBranch)
   \<and> (\<exists>st' nb.
       handleCreateBranch 4 ideasContinued = Inr st'
     \<and> branchIn st' ''branch-4'' = Some nb
     \<and> messages nb =
         [\<lparr>m_id = ''inherited-3'',
           content = ''This is a response to: '' @ [CHR 0x22] @ ''more'' @ [CHR 0x22],
           role = Assistant, timestamp = 2, isInherited = Some True\<rparr>])"
proof -
  have h1: "activeBranchOf projectIdeas = Some ideasMain"
    by (simp add: activeBranchOf_def obj_get_def projectIdeas_def ideasConversation_def)
  have h2: "canCreateBranch (Some ideasMain)"
    by (simp add: canCreateBranch_def ideasMain_def)
  have m: "mostRecentNonInherited (messages ideasMain)
             = Some \<lparr>m_id = ''2'',
                 content = ''Here are some exciting project ideas we could explore...'',
                 role = Assistant, timestamp = 0, isInherited = None\<rparr>"
    by (simp add: mostRecentNonInherited_def ideasMain_def)
  have k1: "activeBranchOf ideasContinued = Some seededBranch"
    by (simp add: activeBranchOf_def obj_get_def ideasContinued_def)
  have k2: "canCreateBranch (Some seededBranch)"
    by (simp add: canCreateBranch_def seededBranch_def)
  have n: "mostRecentNonInherited (messages seededBranch)
             = Some \<lparr>m_id = ''3'',
                 content = ''This is a response to: '' @ [CHR 0x22] @ ''more'' @ [CHR 0x22],
                 role = Assistant, timestamp = 2, isInherited = None\<rparr>"
    by (simp add: mostRecentNonInherited_def seededBranch_def)
  from new_branch_seed[OF reachable_projectIdeas h1 h2, of 1] m
  have "\<exists>st' nb.
       handleCreateBranch 1 projectIdeas = Inr st'
     \<and> branchIn st' ''branch-1'' = Some nb
     \<and> messages nb =
         [\<lparr>m_id = ''inherited-2'',
           content = ''Here are some exciting project ideas we could explore...'',
           role = Assistant, timestamp = 0, isInherited = Some True\<rparr>]"
    by (auto simp: decimal.simps)
  moreover from new_branch_seed[OF reachable_ideasContinued k1 k2, of 4] n
  have "\<exists>st' nb.
       handleCreateBranch 4 ideasContinued = Inr st'
     \<and> branchIn st' ''branch-4'' = Some nb
     \<and> messages nb =
         [\<lparr>m_id = ''inherited-3'',
           content = ''This is a response to: '' @ [CHR 0x22] @ ''more'' @ [CHR 0x22],
           role = Assistant, timestamp = 2, isInherited = Some True\<rparr>]"
    by (auto simp: decimal.simps)
  ultimately show ?thesis
    using reachable_projectIdeas reachable_ideasContinued h1 h2 k1 k2 by blast
qed

section \<open>Two children of the root\<close>

lemma decimal_nonempty: "decimal n \<noteq> []"
  by (subst decimal.simps) simp

lemma digit_inj:
  assumes "i < 10" "j < 10" "''0123456789'' ! i = ''0123456789'' ! j"
  shows "i = j"
proof -
  have "distinct ''0123456789''" by simp
  moreover have "i < length ''0123456789''" "j < length ''0123456789''"
    using assms by simp_all
  ultimately show ?thesis
    using assms(3) nth_eq_iff_index_eq by blast
qed

lemma decimal_inj: "decimal m = decimal n \<Longrightarrow> m = n"
proof (induction m arbitrary: n rule: decimal.induct)
  case (1 m)
  have lm: "last (decimal m) = ''0123456789'' ! (m mod 10)"
    by (subst decimal.simps) simp
  have ln: "last (decimal n) = ''0123456789'' ! (n mod 10)"
    by (subst decimal.simps) simp
  have bm: "butlast (decimal m) = (if m < 10 then [] else decimal (m div 10))"
    by (subst decimal.simps) simp
  have bn: "butlast (decimal n) = (if n < 10 then [] else decimal (n div 10))"
    by (subst decimal.simps) simp
  from "1.prems" lm ln have "''0123456789'' ! (m mod 10) = ''0123456789'' ! (n mod 10)"
    by simp
  then have md: "m mod 10 = n mod 10"
    using digit_inj[of "m mod 10" "n mod 10"] by simp
  from "1.prems" bm bn have b: "(if m < 10 then [] else decimal (m div 10))
      = (if n < 10 then [] else decimal (n div 10))"
    by simp
  show ?case
  proof (cases "m < 10")
    case True
    with b decimal_nonempty have "n < 10"
      by (metis)
    with True md show ?thesis by simp
  next
    case False
    with b decimal_nonempty have n: "\<not> n < 10"
      by (metis)
    with False b have "decimal (m div 10) = decimal (n div 10)" by simp
    with "1.IH" False have "m div 10 = n div 10" by blast
    with md show ?thesis
      by (metis div_mult_mod_eq)
  qed
qed

lemmas layout_eval_plain = calculateOptimalBranchPositions_def conversationOf_def branchAt_def
  isArrayIndex_def isDigit_def decimalValue_def digitVal_def addChild_def
  obj_get_def protoNames_def lengthZeroNames_def replacesPrototype_def
  isRoot_def truthy_def Let_def resolveOverlaps_def resolvePair_def overlapping_def
  HORIZONTAL_SPACING_def VERTICAL_SPACING_def BLOCK_HEIGHT_def BLOCK_WIDTH_def MIN_SPACING_def
  branchesOf_def

text \<open>
  Claim C3, as stated, fails. From \<^verbatim>\<open>Project Ideas\<close>, whose only branch is the root at
  \<open>(800, 400)\<close>, the first new branch lands at \<open>(1250, 285)\<close>, which is neither \<open>(1250, 400)\<close> nor
  \<open>(350, 400)\<close>: for one or two children the band is \<open>BLOCK_HEIGHT = 380\<close> high and the first
  child stands at \<open>y - 190 + 75\<close>. After switching back to the root, the second new branch lands
  on the other side at \<open>(350, 435)\<close>, not at the height of the first.
\<close>

theorem first_child_counterexample:
  "(case handleCreateBranch 1 projectIdeas of
      Inl e \<Rightarrow> None
    | Inr st1 \<Rightarrow> map_option position (branchIn st1 ''branch-1''))
     = Some \<lparr>px = 1250, py = 285\<rparr>
   \<and> (case handleCreateBranch 1 projectIdeas of
        Inl e \<Rightarrow> None
      | Inr st1 \<Rightarrow>
          (case handleSwitchBranch ''main'' st1 of
             Inl e \<Rightarrow> None
           | Inr switched \<Rightarrow>
               (case handleCreateBranch 2 switched of
                  Inl e \<Rightarrow> None
                | Inr st2 \<Rightarrow>
                    Some (map_option position (branchIn st2 ''branch-1''),
                          map_option position (branchIn st2 ''branch-2'')))))
     = Some (Some \<lparr>px = 1250, py = 285\<rparr>, Some \<lparr>px = 350, py = 435\<rparr>)"
  by (simp add: handler_eval layout_eval)

text \<open>
  Claim C3, amended. Starting from a conversation whose only branch is the root, with at least one
  message and \<^verbatim>\<open>canvasCenter = (800, 400)\<close>: creating a branch places it at \<open>(1250, 285)\<close>, on
  the right; switching back to the root and creating a second branch, at another value of
  \<^verbatim>\<open>Date.now()\<close> (the new id is made of it), leaves the root at \<open>(800, 400)\<close> and the first child
  at \<open>(1250, 285)\<close> and places the second child of the root on the opposite side, at
  \<open>(350, 435)\<close>, 150 below the first.
\<close>

theorem two_children_scenario:
  assumes "t1 \<noteq> t2"
  shows "\<exists>st1 switched st2.
           handleCreateBranch t1 (rootOnly cid m ms) = Inr st1
         \<and> map_option position (branchIn st1 (''branch-'' @ decimal t1)) = Some \<lparr>px = 1250, py = 285\<rparr>
         \<and> handleSwitchBranch ''main'' st1 = Inr switched
         \<and> handleCreateBranch t2 switched = Inr st2
         \<and> map_option position (branchIn st2 ''main'') = Some \<lparr>px = 800, py = 400\<rparr>
         \<and> map_option parentBranchId (branchIn st2 (''branch-'' @ decimal t1)) = Some (Some ''main'')
         \<and> map_option position (branchIn st2 (''branch-'' @ decimal t1)) = Some \<lparr>px = 1250, py = 285\<rparr>
         \<and> map_option parentBranchId (branchIn st2 (''branch-'' @ decimal t2)) = Some (Some ''main'')
         \<and> map_option position (branchIn st2 (''branch-'' @ decimal t2)) = Some \<lparr>px = 350, py = 435\<rparr>"
proof -
  from assms have "decimal t1 \<noteq> decimal t2"
    using decimal_inj by blast
  then show ?thesis
    by (simp add: handleCreateBranch_def handleSwitchBranch_def rootOnly_def branchIn_def
        activeConversationOf_def ownEntries_single ownEntries_plain
        layout_eval_plain)
qed

text \<open>The amended claim with the time stamps 1 and 2.\<close>

theorem two_children_scenario_witness:
  "\<exists>st1 switched st2.
       handleCreateBranch 1 (rootOnly ''1''
          \<lparr>m_id = ''5'', content = ''hello'', role = User, timestamp = 5, isInherited = None\<rparr> [])
         = Inr st1
     \<and> map_option position (branchIn st1 ''branch-1'') = Some \<lparr>px = 1250, py = 285\<rparr>
     \<and> handleSwitchBranch ''main'' st1 = Inr switched
     \<and> handleCreateBranch 2 switched = Inr st2
     \<and> map_option position (branchIn st2 ''branch-1'') = Some \<lparr>px = 1250, py = 285\<rparr>
     \<and> map_option position (branchIn st2 ''branch-2'') = Some \<lparr>px = 350, py = 435\<rparr>"
proof -
  have h: "(1::nat) \<noteq> 2" by simp
  from two_children_scenario[OF h, of "''1''"
      "\<lparr>m_id = ''5'', content = ''hello'', role = User, timestamp = 5, isInherited = None\<rparr>" "[]"]
  show ?thesis
    by (auto simp: decimal.simps)
qed

section \<open>Edge geometry\<close>

lemma ccp_right:
  "px (position c) > px (position p) \<Longrightarrow>
   calculateConnectionPoints p c =
     \<lparr>startX = px (position p) + 160, startY = py (position p),
      endX = px (position c) - 160, endY = py (position c)\<rparr>"
  by (simp add: calculateConnectionPoints_def)

lemma ccp_left:
  "px (position c) < px (position p) \<Longrightarrow>
   calculateConnectionPoints p c =
     \<lparr>startX = px (position p) - 160, startY = py (position p),
      endX = px (position c) + 160, endY = py (position c)\<rparr>"
  by (simp add: calculateConnectionPoints_def)

text \<open>
  Claim C9, as stated, fails. With the parent at \<open>(0, 0)\<close> and the child at \<open>(320, 100)\<close> the two
  anchors have the same x, the test \<^verbatim>\<open>endX > startX\<close> is false, and the first control point lies
  80 to the left of its anchor (into the parent block, not outward); for the mirrored child at
  \<open>(-320, 100)\<close> the anchors coincide again and the first control point lies 80 to the left
  as well: the same sign, not the opposite one.
\<close>

theorem edge_mirror_counterexample:
  "controlX1 (calculateConnectionPoints (branchAt ''p'' None \<lparr>px = 0, py = 0\<rparr>)
      (branchAt ''c'' (Some ''p'') \<lparr>px = 320, py = 100\<rparr>))
   - startX (calculateConnectionPoints (branchAt ''p'' None \<lparr>px = 0, py = 0\<rparr>)
      (branchAt ''c'' (Some ''p'') \<lparr>px = 320, py = 100\<rparr>)) = - 80
   \<and> controlX1 (calculateConnectionPoints (branchAt ''p'' None \<lparr>px = 0, py = 0\<rparr>)
      (mirrorAbout (branchAt ''p'' None \<lparr>px = 0, py = 0\<rparr>)
         (branchAt ''c'' (Some ''p'') \<lparr>px = 320, py = 100\<rparr>)))
   - startX (calculateConnectionPoints (branchAt ''p'' None \<lparr>px = 0, py = 0\<rparr>)
      (mirrorAbout (branchAt ''p'' None \<lparr>px = 0, py = 0\<rparr>)
         (branchAt ''c'' (Some ''p'') \<lparr>px = 320, py = 100\<rparr>))) = - 80"
  by (simp add: calculateConnectionPoints_def branchAt_def mirrorAbout_def controlX1_def
      controlOffset_def)

text \<open>
  Claim C9, amended. For a child to the right of its parent whose centre is not exactly 320
  (one block width) away horizontally: the edge starts at the parent's right edge and ends at the
  child's left edge; both control points lie at the horizontal distance
  \<open>clamp(|endX - startX| * 0.3, 80, 150)\<close> from their anchors, where \<open>endX - startX\<close> is the
  distance between the two anchors; for the mirrored child both offsets have the same
  magnitude and the opposite sign. The offsets point outward (away from the block, towards the
  other anchor) when the child is more than 320 to the right, and inward when it is nearer.
\<close>

theorem edge_geometry:
  assumes right: "px (position childBranch) > px (position parentBranch)"
    and apart: "px (position childBranch) - px (position parentBranch) \<noteq> 320"
  shows "(let c = calculateConnectionPoints parentBranch childBranch;
              m = calculateConnectionPoints parentBranch (mirrorAbout parentBranch childBranch)
          in startX c = px (position parentBranch) + 160
             \<and> endX c = px (position childBranch) - 160
             \<and> controlOffset c = min (max (\<bar>endX c - startX c\<bar> * (3 / 10)) 80) 150
             \<and> \<bar>controlX1 c - startX c\<bar> = controlOffset c
             \<and> \<bar>controlX2 c - endX c\<bar> = controlOffset c
             \<and> controlX1 m - startX m = - (controlX1 c - startX c)
             \<and> controlX2 m - endX m = - (controlX2 c - endX c)
             \<and> (if px (position childBranch) - px (position parentBranch) > 320
                 then controlX1 c = startX c + controlOffset c
                      \<and> controlX2 c = endX c - controlOffset c
                 else controlX1 c = startX c - controlOffset c
                      \<and> controlX2 c = endX c + controlOffset c))"
proof -
  define a where "a = px (position parentBranch)"
  define b where "b = px (position childBranch)"
  define c where "c = calculateConnectionPoints parentBranch childBranch"
  define m where
    "m = calculateConnectionPoints parentBranch (mirrorAbout parentBranch childBranch)"
  have ab: "a < b" "b - a \<noteq> 320"
    using right apart by (simp_all add: a_def b_def)
  have ml: "px (position (mirrorAbout parentBranch childBranch)) < px (position parentBranch)"
    using right by (simp add: mirrorAbout_def)
  have c: "startX c = a + 160" "endX c = b - 160"
    by (simp_all add: c_def ccp_right[OF right] a_def b_def)
  have m: "startX m = a - 160" "endX m = 2 * a - b + 160"
    unfolding m_def ccp_left[OF ml] by (simp_all add: a_def b_def mirrorAbout_def)
  have dc: "\<bar>endX c - startX c\<bar> = \<bar>b - a - 320\<bar>"
    by (simp add: c)
  have dm: "\<bar>endX m - startX m\<bar> = \<bar>b - a - 320\<bar>"
    using m by (simp add: abs_if)
  have offm: "controlOffset m = controlOffset c"
    by (simp add: controlOffset_def Let_def dc dm)
  have offpos: "0 < controlOffset c"
    by (simp add: controlOffset_def Let_def)
  have offc: "controlOffset c = min (max (\<bar>endX c - startX c\<bar> * (3 / 10)) 80) 150"
    by (simp add: controlOffset_def Let_def)
  have rc: "endX c > startX c \<longleftrightarrow> b - a > 320"
    using c by auto
  have rm: "endX m > startX m \<longleftrightarrow> b - a < 320"
    using m by auto
  have x1c: "controlX1 c - startX c = (if b - a > 320 then controlOffset c else - controlOffset c)"
    by (simp add: controlX1_def Let_def rc)
  have x2c: "controlX2 c - endX c = (if b - a > 320 then - controlOffset c else controlOffset c)"
    by (simp add: controlX2_def Let_def rc)
  have x1m: "controlX1 m - startX m = (if b - a < 320 then controlOffset c else - controlOffset c)"
    by (simp add: controlX1_def Let_def rm offm)
  have x2m: "controlX2 m - endX m = (if b - a < 320 then - controlOffset c else controlOffset c)"
    by (simp add: controlX2_def Let_def rm offm)
  have "startX c = px (position parentBranch) + 160 \<and> endX c = px (position childBranch) - 160"
    using c by (simp add: a_def b_def)
  moreover have "\<bar>controlX1 c - startX c\<bar> = controlOffset c
      \<and> \<bar>controlX2 c - endX c\<bar> = controlOffset c"
    using offpos by (simp add: x1c x2c)
  moreover have "controlX1 m - startX m = - (controlX1 c - startX c)
      \<and> controlX2 m - endX m = - (controlX2 c - endX c)"
    using ab by (simp add: x1c x2c x1m x2m)
  moreover have "(if px (position childBranch) - px (position parentBranch) > 320
                 then controlX1 c = startX c + controlOffset c
                      \<and> controlX2 c = endX c - controlOffset c
                 else controlX1 c = startX c - controlOffset c
                      \<and> controlX2 c = endX c + controlOffset c)"
    using x1c x2c by (auto simp: a_def b_def)
  ultimately show ?thesis
    using offc unfolding Let_def c_def m_def by blast
qed

text \<open>
  The amended claim at the first child the layout places: parent at \<open>(800, 400)\<close>, child at
  \<open>(1250, 285)\<close>. The anchors are 130 apart, the offset is the lower clamp 80.
\<close>

theorem edge_geometry_witness:
  "px (position (branchAt ''c'' (Some ''main'') \<lparr>px = 1250, py = 285\<rparr>))
     > px (position (branchAt ''main'' None \<lparr>px = 800, py = 400\<rparr>))
   \<and> px (position (branchAt ''c'' (Some ''main'') \<lparr>px = 1250, py = 285\<rparr>))
       - px (position (branchAt ''main'' None \<lparr>px = 800, py = 400\<rparr>)) \<noteq> 320
   \<and> controlOffset (calculateConnectionPoints (branchAt ''main'' None \<lparr>px = 800, py = 400\<rparr>)
        (branchAt ''c'' (Some ''main'') \<lparr>px = 1250, py = 285\<rparr>)) = 80
   \<and> controlX1 (calculateConnectionPoints (branchAt ''main'' None \<lparr>px = 800, py = 400\<rparr>)
        (branchAt ''c'' (Some ''main'') \<lparr>px = 1250, py = 285\<rparr>)) = 1040
   \<and> controlX2 (calculateConnectionPoints (branchAt ''main'' None \<lparr>px = 800, py = 400\<rparr>)
        (branchAt ''c'' (Some ''main'') \<lparr>px = 1250, py = 285\<rparr>)) = 1010
   \<and> controlX1 (calculateConnectionPoints (branchAt ''main'' None \<lparr>px = 800, py = 400\<rparr>)
        (mirrorAbout (branchAt ''main'' None \<lparr>px = 800, py = 400\<rparr>)
           (branchAt ''c'' (Some ''main'') \<lparr>px = 1250, py = 285\<rparr>))) = 560
   \<and> controlX2 (calculateConnectionPoints (branchAt ''main'' None \<lparr>px = 800, py = 400\<rparr>)
        (mirrorAbout (branchAt ''main'' None \<lparr>px = 800, py = 400\<rparr>)
           (branchAt ''c'' (Some ''main'') \<lparr>px = 1250, py = 285\<rparr>))) = 590"
proof -
  have h1: "px (position (branchAt ''c'' (Some ''main'') \<lparr>px = 1250, py = 285\<rparr>))
     > px (position (branchAt ''main'' None \<lparr>px = 800, py = 400\<rparr>))"
    by (simp add: branchAt_def)
  have h2: "px (position (branchAt ''c'' (Some ''main'') \<lparr>px = 1250, py = 285\<rparr>))
       - px (position (branchAt ''main'' None \<lparr>px = 800, py = 400\<rparr>)) \<noteq> 320"
    by (simp add: branchAt_def)
  show ?thesis
    using edge_geometry[OF h1 h2]
    by (simp add: calculateConnectionPoints_def branchAt_def mirrorAbout_def controlX1_def
        controlX2_def controlOffset_def Let_def)
qed

section \<open>Recentring the canvas\<close>




end
